theory Spec2Isabelle
  imports Complex_Main "HOL-Library.Sublist"
begin

section \<open>Python values and exceptions\<close>

text \<open>
  The example scripts compute with Python floats and ints; ints are modelled as
  \<open>int\<close>. Every exception a script can raise is a value of \<open>error\<close>; a computation
  that may raise returns \<open>error + 'a\<close>. The closed forms of \<open>gradient_descent.py\<close>,
  \<open>accelerated_douglas_rachford_splitting.py\<close>, \<open>no_lips_2.py\<close> and
  \<open>accelerated_proximal_gradient.py\<close> are modelled over the real numbers that the
  floats approximate; the one of \<open>gradient_descent_quadratics.py\<close> is modelled in
  binary64 arithmetic (section \<open>Python floats\<close>), with its rounding, underflow and
  overflow.
\<close>

datatype error = NameError | ZeroDivisionError | IndexError | OverflowError

definition bind_err :: "error + 'a \<Rightarrow> ('a \<Rightarrow> error + 'b) \<Rightarrow> error + 'b" where
  "bind_err m f = (case m of Inl e \<Rightarrow> Inl e | Inr x \<Rightarrow> f x)"

text \<open>Python's true division \<open>a / b\<close>: raises on a zero divisor.\<close>

definition truediv :: "real \<Rightarrow> real \<Rightarrow> error + real" where
  "truediv a b = (if b = 0 then Inl ZeroDivisionError else Inr (a / b))"

text \<open>Python's \<open>x ** k\<close> for an int exponent: a negative power of zero raises.\<close>

definition pypow :: "real \<Rightarrow> int \<Rightarrow> error + real" where
  "pypow x k =
     (if 0 \<le> k then Inr (x ^ nat k)
      else if x = 0 then Inl ZeroDivisionError
      else Inr (1 / x ^ nat (- k)))"

text \<open>Closeness of two values up to an absolute tolerance.\<close>

definition within_tolerance :: "real \<Rightarrow> real \<Rightarrow> real \<Rightarrow> bool" where
  "within_tolerance eps a b \<longleftrightarrow> \<bar>a - b\<bar> \<le> eps"

section \<open>Python floats\<close>

text \<open>
  A Python float is an IEEE 754 binary64 value: a finite number, an infinity or a
  NaN. A finite float is given by the real number it denotes (the sign of a zero is
  dropped: \<open>-0.0 == 0.0\<close>, and no operation below distinguishes the two zeros by its
  value).
\<close>

datatype pyfloat = Num real | PosInf | NegInf | NaN

text \<open>Rounding to the nearest integer, ties to the even one.\<close>

definition round_half_even :: "real \<Rightarrow> int" where
  "round_half_even y =
     (let f = \<lfloor>y\<rfloor> in
      if y - of_int f < 1 / 2 then f
      else if 1 / 2 < y - of_int f then f + 1
      else if even f then f else f + 1)"

text \<open>
  The binary exponent \<open>e\<close> of \<open>a \<ge> 0\<close>, with \<open>2 ^ e \<le> a < 2 ^ (e + 1)\<close>, kept within
  the exponents \<open>-1022 .. 1023\<close> of binary64: found by stepping up from \<open>-1022\<close>.
\<close>

fun binade_from :: "nat \<Rightarrow> int \<Rightarrow> real \<Rightarrow> int" where
  "binade_from 0 e a = e"
| "binade_from (Suc k) e a = (if 2 powi (e + 1) \<le> a then binade_from k (e + 1) a else e)"

definition binade :: "real \<Rightarrow> int" where
  "binade a = binade_from 2045 (- 1022) a"

text \<open>
  Rounding to 53 significant bits, to nearest, ties to even: \<open>x\<close> is rounded to a
  multiple of the unit in the last place of its binade (\<open>2 ^ -1074\<close> below
  \<open>2 ^ -1021\<close>, where the subnormal numbers lie).
\<close>

definition rounded :: "real \<Rightarrow> real" where
  "rounded x = (let u = 2 powi (binade \<bar>x\<bar> - 52) in of_int (round_half_even (x / u)) * u)"

text \<open>The first power of two beyond the finite floats.\<close>

definition huge :: real where
  "huge = 2 ^ 1024"

text \<open>The float nearest to a real number; a rounded value of magnitude \<open>huge\<close> overflows.\<close>

definition to_double :: "real \<Rightarrow> pyfloat" where
  "to_double x =
     (let y = rounded x
      in if huge \<le> y then PosInf else if y \<le> - huge then NegInf else Num y)"

text \<open>The real numbers that are finite floats, and the largest of them.\<close>

definition is_double :: "real \<Rightarrow> bool" where
  "is_double x \<longleftrightarrow> to_double x = Num x"

definition max_double :: real where
  "max_double = (2 ^ 53 - 1) * 2 ^ 971"

text \<open>
  An int operand of a float operation is converted first (\<open>PyLong_AsDouble\<close>):
  \<open>OverflowError\<close> when it is too large.
\<close>

definition float_of_int :: "int \<Rightarrow> error + real" where
  "float_of_int k = (case to_double (of_int k) of Num r \<Rightarrow> Inr r | _ \<Rightarrow> Inl OverflowError)"

definition sign_of :: "pyfloat \<Rightarrow> real" where
  "sign_of a = (case a of Num x \<Rightarrow> sgn x | PosInf \<Rightarrow> 1 | NegInf \<Rightarrow> - 1 | NaN \<Rightarrow> 0)"

definition inf_of_sign :: "real \<Rightarrow> pyfloat" where
  "inf_of_sign s = (if 0 < s then PosInf else if s < 0 then NegInf else NaN)"

text \<open>\<open>a * b\<close>: never raises; an infinity times zero is a NaN.\<close>

definition float_mul :: "pyfloat \<Rightarrow> pyfloat \<Rightarrow> pyfloat" where
  "float_mul a b =
     (if a = NaN \<or> b = NaN then NaN
      else case a of
          Num x \<Rightarrow> (case b of Num y \<Rightarrow> to_double (x * y) | _ \<Rightarrow> inf_of_sign (sgn x * sign_of b))
        | _ \<Rightarrow> inf_of_sign (sign_of a * sign_of b))"

text \<open>\<open>a - b\<close>: never raises.\<close>

definition float_sub :: "pyfloat \<Rightarrow> pyfloat \<Rightarrow> pyfloat" where
  "float_sub a b =
     (case a of
        Num x \<Rightarrow> (case b of Num y \<Rightarrow> to_double (x - y) | PosInf \<Rightarrow> NegInf
                     | NegInf \<Rightarrow> PosInf | NaN \<Rightarrow> NaN)
      | PosInf \<Rightarrow> (case b of PosInf \<Rightarrow> NaN | NaN \<Rightarrow> NaN | _ \<Rightarrow> PosInf)
      | NegInf \<Rightarrow> (case b of NegInf \<Rightarrow> NaN | NaN \<Rightarrow> NaN | _ \<Rightarrow> NegInf)
      | NaN \<Rightarrow> NaN)"

text \<open>\<open>a / b\<close>: raises on a zero divisor, also when the zero is an underflown product.\<close>

definition float_div :: "pyfloat \<Rightarrow> pyfloat \<Rightarrow> error + pyfloat" where
  "float_div a b =
     (if b = Num 0 then Inl ZeroDivisionError
      else Inr (if a = NaN \<or> b = NaN then NaN
        else case a of
            Num x \<Rightarrow> (case b of Num y \<Rightarrow> to_double (x / y) | _ \<Rightarrow> Num 0)
          | _ \<Rightarrow> (case b of Num y \<Rightarrow> inf_of_sign (sign_of a * sgn y) | _ \<Rightarrow> NaN)))"

text \<open>\<open>a < b\<close> and \<open>a <= b\<close>: false when an operand is a NaN.\<close>

definition float_lt :: "pyfloat \<Rightarrow> pyfloat \<Rightarrow> bool" where
  "float_lt a b =
     (case a of
        Num x \<Rightarrow> (case b of Num y \<Rightarrow> x < y | PosInf \<Rightarrow> True | _ \<Rightarrow> False)
      | NegInf \<Rightarrow> (case b of Num y \<Rightarrow> True | PosInf \<Rightarrow> True | _ \<Rightarrow> False)
      | _ \<Rightarrow> False)"

definition float_le :: "pyfloat \<Rightarrow> pyfloat \<Rightarrow> bool" where
  "float_le a b =
     (case a of
        Num x \<Rightarrow> (case b of Num y \<Rightarrow> x \<le> y | PosInf \<Rightarrow> True | _ \<Rightarrow> False)
      | NegInf \<Rightarrow> b \<noteq> NaN
      | PosInf \<Rightarrow> b = PosInf
      | NaN \<Rightarrow> False)"

definition nonneg :: "pyfloat \<Rightarrow> bool" where
  "nonneg v \<longleftrightarrow> float_le (Num 0) v"

text \<open>
  \<open>a ** k\<close> for a float \<open>a\<close> and an int \<open>k\<close> (\<open>float_pow\<close>): the exponent is converted
  to a float \<open>iw\<close>; the special cases are decided by Python; a finite base other than
  \<open>0\<close>, \<open>1\<close> and \<open>-1\<close> is passed, by its absolute value, to the \<open>pow\<close> of the C library
  and the result is negated for a negative base and an odd exponent. A range error
  of \<open>pow\<close> raises \<open>OverflowError\<close>. The C library is not part of the sources: its
  \<open>pow\<close> is the parameter \<open>pw\<close>, \<open>None\<close> being the range error.
\<close>

definition is_odd_integer :: "real \<Rightarrow> bool" where
  "is_odd_integer w \<longleftrightarrow> of_int \<lfloor>w\<rfloor> = w \<and> odd \<lfloor>w\<rfloor>"

definition float_pow :: "(real \<Rightarrow> real \<Rightarrow> real option) \<Rightarrow> pyfloat \<Rightarrow> int \<Rightarrow> error + pyfloat" where
  "float_pow pw a k =
     bind_err (float_of_int k) (\<lambda>iw.
       if iw = 0 then Inr (Num 1)
       else case a of
           NaN \<Rightarrow> Inr NaN
         | PosInf \<Rightarrow> Inr (if 0 < iw then PosInf else Num 0)
         | NegInf \<Rightarrow>
             Inr (if 0 < iw then (if is_odd_integer iw then NegInf else PosInf) else Num 0)
         | Num x \<Rightarrow>
             if x = 0 then (if iw < 0 then Inl ZeroDivisionError else Inr (Num 0))
             else if \<bar>x\<bar> = 1 then Inr (Num (if x < 0 \<and> is_odd_integer iw then - 1 else 1))
             else (case pw \<bar>x\<bar> iw of
                 None \<Rightarrow> Inl OverflowError
               | Some r \<Rightarrow> Inr (Num (if x < 0 \<and> is_odd_integer iw then - r else r))))"

text \<open>
  What is assumed of the C library's \<open>pow\<close> at a positive base: when it reports no
  range error, its result is a non-negative number within the range of the floats.
\<close>

definition c_pow_range :: "(real \<Rightarrow> real \<Rightarrow> real option) \<Rightarrow> bool" where
  "c_pow_range pw \<longleftrightarrow> (\<forall>x y r. 0 < x \<longrightarrow> pw x y = Some r \<longrightarrow> 0 \<le> r \<and> r \<le> max_double)"

text \<open>
  One such \<open>pow\<close>, for integer exponents: the exact power, correctly rounded, with a
  range error when the rounded value overflows.
\<close>

definition rounded_pow :: "real \<Rightarrow> real \<Rightarrow> real option" where
  "rounded_pow x y =
     (case to_double (if 0 \<le> y then x ^ nat \<lfloor>y\<rfloor> else 1 / x ^ nat \<lfloor>- y\<rfloor>) of
        Num r \<Rightarrow> Some r
      | _ \<Rightarrow> None)"

text \<open>\<open>np.max((a, b))\<close>: a NaN if one of the two is.\<close>

definition np_max :: "pyfloat \<Rightarrow> pyfloat \<Rightarrow> pyfloat" where
  "np_max a b = (if a = NaN \<or> b = NaN then NaN else if float_lt a b then b else a)"

section \<open>Reference values computed by the example scripts\<close>

text \<open>\<open>gradient_descent.py\<close>, line 92: \<open>theoretical_tau = L / (2 * (2 * n + 1))\<close>.\<close>

definition gd_theoretical_tau :: "real \<Rightarrow> int \<Rightarrow> error + real" where
  "gd_theoretical_tau L n = truediv L (2 * (2 * of_int n + 1))"

text \<open>
  \<open>gradient_descent_quadratics.py\<close>, lines 115--121, for float arguments \<open>mu\<close>, \<open>L\<close>,
  \<open>gamma\<close> and an int \<open>n\<close>: \<open>t = 1 / (L*gamma*(2*n+1))\<close> and the value \<open>alpha\<close>
  selected by the \<open>if\<close>/\<open>elif\<close>/\<open>else\<close> chain.
\<close>

definition gdq_alpha :: "pyfloat \<Rightarrow> pyfloat \<Rightarrow> pyfloat \<Rightarrow> int \<Rightarrow> error + pyfloat" where
  "gdq_alpha mu L gamma n =
     bind_err (float_of_int (2 * n + 1)) (\<lambda>k.
     bind_err (float_div (Num 1) (float_mul (float_mul L gamma) (Num k))) (\<lambda>t.
     bind_err (float_div mu L) (\<lambda>r.
       if float_lt t r then float_div mu L
       else if float_lt (Num 1) t then Inr (Num 1)
       else Inr t)))"

text \<open>
  Line 123:
  \<open>theoretical_tau = 0.5*L*np.max((alpha*(1-alpha*L*gamma)**(2*n), (1-L*gamma)**(2*n)))\<close>.
\<close>

definition gdq_theoretical_tau ::
  "(real \<Rightarrow> real \<Rightarrow> real option) \<Rightarrow> pyfloat \<Rightarrow> pyfloat \<Rightarrow> pyfloat \<Rightarrow> int \<Rightarrow> error + pyfloat" where
  "gdq_theoretical_tau pw mu L gamma n =
     bind_err (gdq_alpha mu L gamma n) (\<lambda>alpha.
     bind_err (float_pow pw (float_sub (Num 1) (float_mul (float_mul alpha L) gamma)) (2 * n)) (\<lambda>a.
     bind_err (float_pow pw (float_sub (Num 1) (float_mul L gamma)) (2 * n)) (\<lambda>b.
       Inr (float_mul (float_mul (Num (1 / 2)) L) (np_max (float_mul alpha a) b)))))"

text \<open>
  The projection of \<open>t\<close> onto the interval \<open>[lo, hi]\<close>, as the docstring of
  \<open>wc_gradient_descent_quadratics\<close> words it (\<open>proj\<close>): \<open>max lo (min hi t)\<close>.
\<close>

definition proj_interval :: "pyfloat \<Rightarrow> pyfloat \<Rightarrow> pyfloat \<Rightarrow> pyfloat" where
  "proj_interval lo hi t =
     (let m = (if float_le hi t then hi else t) in if float_le lo m then m else lo)"


text \<open>\<open>accelerated_douglas_rachford_splitting.py\<close>, line 111.\<close>

definition adrs_theta :: "real \<Rightarrow> real \<Rightarrow> error + real" where
  "adrs_theta alpha L = truediv (1 - alpha * L) (1 + alpha * L)"

text \<open>Line 137: \<open>theoretical_tau = 2 / (alpha * theta * (n + 3) ** 2)\<close>.\<close>

definition adrs_theoretical_tau :: "real \<Rightarrow> real \<Rightarrow> int \<Rightarrow> error + real" where
  "adrs_theoretical_tau alpha theta n = truediv 2 (alpha * theta * of_int ((n + 3) ^ 2))"

text \<open>\<open>no_lips_2.py\<close>, line 123: \<open>theoretical_tau = gamma / n\<close>.\<close>

definition no_lips2_theoretical_tau :: "real \<Rightarrow> int \<Rightarrow> error + real" where
  "no_lips2_theoretical_tau gamma n = truediv gamma (of_int n)"

text \<open>
  \<open>accelerated_proximal_gradient.py\<close>, lines 119--123: both branches of the test
  \<open>mu == 0\<close> compute the same value (the second one also prints a warning).
\<close>

definition apg_theoretical_tau :: "real \<Rightarrow> real \<Rightarrow> int \<Rightarrow> error + real" where
  "apg_theoretical_tau mu L n =
     (if mu = 0 then truediv (2 * L) (of_int (n ^ 2 + 5 * n + 2))
      else truediv (2 * L) (of_int (n ^ 2 + 5 * n + 2)))"

section \<open>Running a script against the engine\<close>

text \<open>
  The scripts are clients of the PEP engine (classes \<open>PEP\<close>, \<open>Function\<close>, \<open>Point\<close>,
  \<open>Expression\<close> and the primitive steps), whose code is not part of the sources at
  hand. A script is therefore a program over an arbitrary engine: a state \<open>'s\<close> that
  every engine call may change, and calls that either return or raise inside the
  engine. The calls that belong to the life cycle of a \<open>Problem\<close> are recorded in a
  trace, in program order.
\<close>

datatype event =
    DeclareFunction | StationaryPoint | SetInitialPoint | OracleCall | PrimitiveStep
  | SetInitialCondition | SetPerformanceMetric | Solve

text \<open>An exception is raised by the script's own statements or inside an engine call.\<close>

datatype 'e failure = Raised error | InEngine 'e

type_synonym ('s, 'e, 'a) prog = "'s \<times> event list \<Rightarrow> ('e failure + 'a) \<times> 's \<times> event list"

definition ret :: "'a \<Rightarrow> ('s, 'e, 'a) prog" where
  "ret a = (\<lambda>st. (Inr a, st))"

definition raise :: "error \<Rightarrow> ('s, 'e, 'a) prog" where
  "raise e = (\<lambda>st. (Inl (Raised e), st))"

definition bnd :: "('s, 'e, 'a) prog \<Rightarrow> ('a \<Rightarrow> ('s, 'e, 'b) prog) \<Rightarrow> ('s, 'e, 'b) prog" where
  "bnd m f = (\<lambda>st. case m st of (Inl x, st') \<Rightarrow> (Inl x, st') | (Inr a, st') \<Rightarrow> f a st')"

text \<open>A value computed by the script itself, which may raise.\<close>

definition lift :: "error + 'a \<Rightarrow> ('s, 'e, 'a) prog" where
  "lift r = (case r of Inl e \<Rightarrow> raise e | Inr a \<Rightarrow> ret a)"

text \<open>Reading a local variable: unbound (\<open>None\<close>) raises \<open>NameError\<close>.\<close>

definition var :: "'a option \<Rightarrow> ('s, 'e, 'a) prog" where
  "var v = (case v of None \<Rightarrow> raise NameError | Some a \<Rightarrow> ret a)"

text \<open>An engine call of the life cycle (\<open>api\<close>, recorded) and an algebraic one (\<open>alg\<close>).\<close>

definition api :: "event \<Rightarrow> ('s \<Rightarrow> 'e + 'a \<times> 's) \<Rightarrow> ('s, 'e, 'a) prog" where
  "api ev op = (\<lambda>(s, tr). case op s of
       Inl x \<Rightarrow> (Inl (InEngine x), s, tr @ [ev])
     | Inr (a, s') \<Rightarrow> (Inr a, s', tr @ [ev]))"

definition alg :: "('s \<Rightarrow> 'e + 'a \<times> 's) \<Rightarrow> ('s, 'e, 'a) prog" where
  "alg op = (\<lambda>(s, tr). case op s of
       Inl x \<Rightarrow> (Inl (InEngine x), s, tr)
     | Inr (a, s') \<Rightarrow> (Inr a, s', tr))"

text \<open>\<open>for i in items: acc = body(i, acc)\<close>.\<close>

fun for_loop :: "'i list \<Rightarrow> ('i \<Rightarrow> 'a \<Rightarrow> ('s, 'e, 'a) prog) \<Rightarrow> 'a \<Rightarrow> ('s, 'e, 'a) prog" where
  "for_loop [] body a = ret a"
| "for_loop (i # is) body a = bnd (body i a) (for_loop is body)"

text \<open>Python's \<open>range(n)\<close>: empty when \<open>n \<le> 0\<close>.\<close>

definition range :: "int \<Rightarrow> int list" where
  "range n = map int [0..<nat n]"

text \<open>\<open>xs[i]\<close> and \<open>xs[i] = v\<close> for an index \<open>i \<ge> 0\<close>.\<close>

definition getitem :: "'a list \<Rightarrow> int \<Rightarrow> error + 'a" where
  "getitem xs i = (if 0 \<le> i \<and> nat i < length xs then Inr (xs ! nat i) else Inl IndexError)"

definition setitem :: "'a list \<Rightarrow> int \<Rightarrow> 'a \<Rightarrow> error + 'a list" where
  "setitem xs i v = (if 0 \<le> i \<and> nat i < length xs then Inr (xs[nat i := v]) else Inl IndexError)"

definition run :: "'s \<Rightarrow> ('s, 'e, 'a) prog \<Rightarrow> ('e failure + 'a) \<times> 's \<times> event list" where
  "run s0 m = m (s0, [])"

definition outcome :: "('e failure + 'a) \<times> 's \<times> event list \<Rightarrow> 'e failure + 'a" where
  "outcome r = fst r"

definition trace :: "('e failure + 'a) \<times> 's \<times> event list \<Rightarrow> event list" where
  "trace r = snd (snd r)"

subsection \<open>The engine's interface\<close>

text \<open>The function classes the scripts declare, with their parameters.\<close>

datatype class_tag =
    ConvexFunction
  | SmoothStronglyConvexFunction real real
  | SmoothStronglyConvexQuadraticFunction real real
  | ConvexIndicatorFunction
  | LipschitzStronglyMonotoneOperator real real

text \<open>
  The calls the scripts make, on points \<open>'p\<close>, expressions \<open>'x\<close>, constraints \<open>'c\<close> and
  functions \<open>'f\<close>. Operators are named: \<open>padd\<close>, \<open>psub\<close>, \<open>pscale\<close> for \<open>+\<close>, \<open>-\<close> and
  scalar \<open>*\<close> on points, \<open>psquare\<close> for \<open>p ** 2\<close>, \<open>pinner\<close> for \<open>p * q\<close>, \<open>eadd\<close> and
  \<open>esub\<close> on expressions, \<open>le_const\<close> for \<open>e <= c\<close>, \<open>fadd\<close>, \<open>fsub\<close>, \<open>fdiv\<close> on
  functions. \<open>declare_function\<close> takes the class with its parameters and the flag
  \<open>is_differentiable\<close> (\<open>False\<close> when the script does not pass it); the verbosity
  level only selects what is printed and is left out. (\<open>oracle_at\<close> and \<open>value_at\<close> are the methods \<open>oracle\<close> and \<open>value\<close>).
  \<open>solve\<close> takes the \<open>dimension_reduction_heuristic\<close> option.
\<close>

record ('s, 'e, 'p, 'x, 'c, 'f) engine =
  PEP :: 's
  declare_function :: "class_tag \<Rightarrow> bool \<Rightarrow> 's \<Rightarrow> 'e + 'f \<times> 's"
  set_initial_point :: "'s \<Rightarrow> 'e + 'p \<times> 's"
  set_initial_condition :: "'c \<Rightarrow> 's \<Rightarrow> 'e + unit \<times> 's"
  set_performance_metric :: "'x \<Rightarrow> 's \<Rightarrow> 'e + unit \<times> 's"
  solve :: "string option \<Rightarrow> 's \<Rightarrow> 'e + real \<times> 's"
  stationary_point :: "'f \<Rightarrow> 's \<Rightarrow> 'e + 'p \<times> 's"
  optimal_point :: "'f \<Rightarrow> 's \<Rightarrow> 'e + 'p \<times> 's"
  oracle_at :: "'f \<Rightarrow> 'p \<Rightarrow> 's \<Rightarrow> 'e + ('p \<times> 'x) \<times> 's"
  gradient :: "'f \<Rightarrow> 'p \<Rightarrow> 's \<Rightarrow> 'e + 'p \<times> 's"
  value_at :: "'f \<Rightarrow> 'p \<Rightarrow> 's \<Rightarrow> 'e + 'x \<times> 's"
  proximal_step :: "'p \<Rightarrow> 'f \<Rightarrow> real \<Rightarrow> 's \<Rightarrow> 'e + ('p \<times> 'p \<times> 'x) \<times> 's"
  bregman_gradient_step :: "'p \<Rightarrow> 'p \<Rightarrow> 'f \<Rightarrow> real \<Rightarrow> 's \<Rightarrow> 'e + ('p \<times> 'p \<times> 'x) \<times> 's"
  padd :: "'p \<Rightarrow> 'p \<Rightarrow> 's \<Rightarrow> 'e + 'p \<times> 's"
  psub :: "'p \<Rightarrow> 'p \<Rightarrow> 's \<Rightarrow> 'e + 'p \<times> 's"
  pscale :: "real \<Rightarrow> 'p \<Rightarrow> 's \<Rightarrow> 'e + 'p \<times> 's"
  psquare :: "'p \<Rightarrow> 's \<Rightarrow> 'e + 'x \<times> 's"
  pinner :: "'p \<Rightarrow> 'p \<Rightarrow> 's \<Rightarrow> 'e + 'x \<times> 's"
  eadd :: "'x \<Rightarrow> 'x \<Rightarrow> 's \<Rightarrow> 'e + 'x \<times> 's"
  esub :: "'x \<Rightarrow> 'x \<Rightarrow> 's \<Rightarrow> 'e + 'x \<times> 's"
  le_const :: "'x \<Rightarrow> real \<Rightarrow> 's \<Rightarrow> 'e + 'c \<times> 's"
  fadd :: "'f \<Rightarrow> 'f \<Rightarrow> 's \<Rightarrow> 'e + 'f \<times> 's"
  fsub :: "'f \<Rightarrow> 'f \<Rightarrow> 's \<Rightarrow> 'e + 'f \<times> 's"
  fdiv :: "'f \<Rightarrow> real \<Rightarrow> 's \<Rightarrow> 'e + 'f \<times> 's"

text \<open>\<open>problem.set_initial_condition((a - b) ** 2 <= 1)\<close>, shared by most scripts.\<close>

definition distance_condition ::
  "('s, 'e, 'p, 'x, 'c, 'f) engine \<Rightarrow> 'p \<Rightarrow> 'p \<Rightarrow> ('s, 'e, unit) prog" where
  "distance_condition E a b =
     bnd (alg (psub E a b)) (\<lambda>d.
     bnd (alg (psquare E d)) (\<lambda>d2.
     bnd (alg (le_const E d2 1)) (\<lambda>c.
     api SetInitialCondition (set_initial_condition E c))))"

section \<open>The example scripts\<close>

subsection \<open>\<open>gradient_descent.py\<close>\<close>

definition wc_gd_steps ::
  "('s, 'e, 'p, 'x, 'c, 'f) engine \<Rightarrow> real \<Rightarrow> real \<Rightarrow> int \<Rightarrow> ('s, 'e, real \<times> real) prog" where
  "wc_gd_steps E L gamma n =
     bnd (api DeclareFunction (declare_function E (SmoothStronglyConvexFunction 0 L) False)) (\<lambda>func.
     bnd (api StationaryPoint (stationary_point E func)) (\<lambda>xs.
     bnd (api OracleCall (value_at E func xs)) (\<lambda>fs.
     bnd (api SetInitialPoint (set_initial_point E)) (\<lambda>x0.
     bnd (distance_condition E x0 xs) (\<lambda>_.
     bnd (for_loop (range n) (\<lambda>_ x.
            bnd (api OracleCall (gradient E func x)) (\<lambda>g.
            bnd (alg (pscale E gamma g)) (\<lambda>t.
            alg (psub E x t)))) x0) (\<lambda>x.
     bnd (api OracleCall (value_at E func x)) (\<lambda>fx.
     bnd (alg (esub E fx fs)) (\<lambda>m.
     bnd (api SetPerformanceMetric (set_performance_metric E m)) (\<lambda>_.
     bnd (api Solve (solve E None)) (\<lambda>pepit_tau.
     bnd (lift (gd_theoretical_tau L n)) (\<lambda>theoretical_tau.
     ret (pepit_tau, theoretical_tau))))))))))))"

definition wc_gd ::
  "('s, 'e, 'p, 'x, 'c, 'f) engine \<Rightarrow> real \<Rightarrow> real \<Rightarrow> int
     \<Rightarrow> ('e failure + real \<times> real) \<times> 's \<times> event list" where
  "wc_gd E L gamma n = run (PEP E) (wc_gd_steps E L gamma n)"


subsection \<open>\<open>gradient_descent_quadratics.py\<close>\<close>

text \<open>
  The arguments \<open>mu\<close>, \<open>L\<close> and \<open>gamma\<close> are finite floats, given by the numbers they
  denote; \<open>pw\<close> is the \<open>pow\<close> of the C library that line 123 reaches.
\<close>

definition wc_gradient_descent_quadratics_steps ::
  "('s, 'e, 'p, 'x, 'c, 'f) engine \<Rightarrow> (real \<Rightarrow> real \<Rightarrow> real option)
     \<Rightarrow> real \<Rightarrow> real \<Rightarrow> real \<Rightarrow> int \<Rightarrow> ('s, 'e, real \<times> pyfloat) prog" where
  "wc_gradient_descent_quadratics_steps E pw mu L gamma n =
     bnd (api DeclareFunction
            (declare_function E (SmoothStronglyConvexQuadraticFunction mu L) False)) (\<lambda>func.
     bnd (api StationaryPoint (stationary_point E func)) (\<lambda>xs.
     bnd (api OracleCall (value_at E func xs)) (\<lambda>fs.
     bnd (api SetInitialPoint (set_initial_point E)) (\<lambda>x0.
     bnd (distance_condition E x0 xs) (\<lambda>_.
     bnd (for_loop (range n) (\<lambda>_ x.
            bnd (api OracleCall (gradient E func x)) (\<lambda>g.
            bnd (alg (pscale E gamma g)) (\<lambda>t.
            alg (psub E x t)))) x0) (\<lambda>x.
     bnd (api OracleCall (value_at E func x)) (\<lambda>fx.
     bnd (alg (esub E fx fs)) (\<lambda>m.
     bnd (api SetPerformanceMetric (set_performance_metric E m)) (\<lambda>_.
     bnd (api Solve (solve E None)) (\<lambda>pepit_tau.
     bnd (lift (gdq_theoretical_tau pw (Num mu) (Num L) (Num gamma) n)) (\<lambda>theoretical_tau.
     ret (pepit_tau, theoretical_tau))))))))))))"

definition wc_gradient_descent_quadratics ::
  "('s, 'e, 'p, 'x, 'c, 'f) engine \<Rightarrow> (real \<Rightarrow> real \<Rightarrow> real option)
     \<Rightarrow> real \<Rightarrow> real \<Rightarrow> real \<Rightarrow> int \<Rightarrow> ('e failure + real \<times> pyfloat) \<times> 's \<times> event list" where
  "wc_gradient_descent_quadratics E pw mu L gamma n =
     run (PEP E) (wc_gradient_descent_quadratics_steps E pw mu L gamma n)"

subsection \<open>\<open>past_extragradient.py\<close>\<close>

text \<open>
  The loop carries \<open>x\<close>, \<open>xtilde\<close>, \<open>V\<close> and \<open>previous_x\<close>; the last one is bound
  only by the loop body (line 111).
\<close>

definition wc_past_extragradient_steps ::
  "('s, 'e, 'p, 'x, 'c, 'f) engine \<Rightarrow> int \<Rightarrow> real \<Rightarrow> real
     \<Rightarrow> ('s, 'e, real \<times> real option) prog" where
  "wc_past_extragradient_steps E n gamma L =
     bnd (api DeclareFunction (declare_function E ConvexIndicatorFunction False)) (\<lambda>ind_C.
     bnd (api DeclareFunction
            (declare_function E (LipschitzStronglyMonotoneOperator 0 L) False)) (\<lambda>F.
     bnd (alg (fadd E F ind_C)) (\<lambda>total_problem.
     bnd (api StationaryPoint (stationary_point E total_problem)) (\<lambda>xs.
     bnd (api SetInitialPoint (set_initial_point E)) (\<lambda>x0.
     bnd (distance_condition E x0 xs) (\<lambda>_.
     bnd (api PrimitiveStep (proximal_step E x0 ind_C gamma)) (\<lambda>(x, _, _).
     bnd (api OracleCall (gradient E F x)) (\<lambda>V.
     bnd (for_loop (range n) (\<lambda>_ (x, xtilde, V, previous_x).
            bnd (alg (pscale E gamma V)) (\<lambda>t.
            bnd (alg (psub E x t)) (\<lambda>a.
            bnd (api PrimitiveStep (proximal_step E a ind_C gamma)) (\<lambda>(xtilde', _, _).
            bnd (api OracleCall (gradient E F xtilde')) (\<lambda>V'.
            bnd (alg (pscale E gamma V')) (\<lambda>t'.
            bnd (alg (psub E x t')) (\<lambda>a'.
            bnd (api PrimitiveStep (proximal_step E a' ind_C gamma)) (\<lambda>(x', _, _).
            ret (x', xtilde', V', Some x))))))))) (x, x, V, None))
         (\<lambda>(x, xtilde, V, previous_x).
     bnd (var previous_x) (\<lambda>px.
     bnd (alg (psub E x px)) (\<lambda>d.
     bnd (alg (psquare E d)) (\<lambda>m.
     bnd (api SetPerformanceMetric (set_performance_metric E m)) (\<lambda>_.
     bnd (api Solve (solve E None)) (\<lambda>pepit_tau.
     ret (pepit_tau, None)))))))))))))))"

definition wc_past_extragradient ::
  "('s, 'e, 'p, 'x, 'c, 'f) engine \<Rightarrow> int \<Rightarrow> real \<Rightarrow> real
     \<Rightarrow> ('e failure + real \<times> real option) \<times> 's \<times> event list" where
  "wc_past_extragradient E n gamma L = run (PEP E) (wc_past_extragradient_steps E n gamma L)"

subsection \<open>\<open>alternate_projections.py\<close>\<close>

definition wc_alternate_projections_steps ::
  "('s, 'e, 'p, 'x, 'c, 'f) engine \<Rightarrow> int \<Rightarrow> ('s, 'e, real \<times> real option) prog" where
  "wc_alternate_projections_steps E n =
     bnd (api DeclareFunction (declare_function E ConvexIndicatorFunction False)) (\<lambda>ind_Q1.
     bnd (api DeclareFunction (declare_function E ConvexIndicatorFunction False)) (\<lambda>ind_Q2.
     bnd (alg (fadd E ind_Q1 ind_Q2)) (\<lambda>func.
     bnd (api StationaryPoint (stationary_point E func)) (\<lambda>xs.
     bnd (api SetInitialPoint (set_initial_point E)) (\<lambda>x0.
     bnd (for_loop (range n) (\<lambda>_ x.
            bnd (api PrimitiveStep (proximal_step E x ind_Q1 1)) (\<lambda>(y, _, _).
            bnd (api PrimitiveStep (proximal_step E y ind_Q2 1)) (\<lambda>(x', _, _).
            ret x'))) x0) (\<lambda>x.
     bnd (api PrimitiveStep (proximal_step E x ind_Q1 1)) (\<lambda>(proj1_x, _, _).
     bnd (alg (psub E x proj1_x)) (\<lambda>d.
     bnd (alg (psquare E d)) (\<lambda>m.
     bnd (api SetPerformanceMetric (set_performance_metric E m)) (\<lambda>_.
     bnd (distance_condition E x0 xs) (\<lambda>_.
     bnd (api Solve (solve E (Some ''logdet1''))) (\<lambda>pepit_tau.
     ret (pepit_tau, None)))))))))))))"

definition wc_alternate_projections ::
  "('s, 'e, 'p, 'x, 'c, 'f) engine \<Rightarrow> int
     \<Rightarrow> ('e failure + real \<times> real option) \<times> 's \<times> event list" where
  "wc_alternate_projections E n = run (PEP E) (wc_alternate_projections_steps E n)"

subsection \<open>\<open>no_lips_2.py\<close>\<close>

text \<open>
  The loop carries \<open>x1\<close>, \<open>x2\<close>, \<open>gfx\<close>, \<open>ghx\<close>, \<open>hx1\<close> and \<open>hx2\<close>. The indicator
  function is declared with \<open>D = inf\<close>, the default of its class.
\<close>

definition wc_no_lips2_steps ::
  "('s, 'e, 'p, 'x, 'c, 'f) engine \<Rightarrow> real \<Rightarrow> real \<Rightarrow> int \<Rightarrow> ('s, 'e, real \<times> real) prog" where
  "wc_no_lips2_steps E L gamma n =
     bnd (api DeclareFunction (declare_function E ConvexFunction True)) (\<lambda>d1.
     bnd (api DeclareFunction (declare_function E ConvexFunction True)) (\<lambda>d2.
     bnd (alg (fsub E d2 d1)) (\<lambda>d21.
     bnd (alg (fdiv E d21 2)) (\<lambda>func1.
     bnd (alg (fadd E d1 d2)) (\<lambda>d12.
     bnd (alg (fdiv E d12 L)) (\<lambda>d12L.
     bnd (alg (fdiv E d12L 2)) (\<lambda>h.
     bnd (api DeclareFunction (declare_function E ConvexIndicatorFunction False)) (\<lambda>func2.
     bnd (alg (fadd E func1 func2)) (\<lambda>func.
     bnd (api SetInitialPoint (set_initial_point E)) (\<lambda>x0.
     bnd (api OracleCall (oracle_at E h x0)) (\<lambda>(gh0, h0).
     bnd (api OracleCall (oracle_at E func1 x0)) (\<lambda>(gf0, f0).
     bnd (api OracleCall (oracle_at E func x0)) (\<lambda>(_, F0).
     bnd (for_loop (range n) (\<lambda>i (x1, x2, gfx, ghx, hx1, hx2).
            bnd (alg (fadd E func2 h)) (\<lambda>func2h.
            bnd (api PrimitiveStep (bregman_gradient_step E gfx ghx func2h gamma))
              (\<lambda>(x2', _, _).
            bnd (api OracleCall (oracle_at E func1 x2')) (\<lambda>(gfx', _).
            bnd (api OracleCall (oracle_at E h x2')) (\<lambda>(ghx', hx2').
            bnd (alg (esub E hx1 hx2')) (\<lambda>dh.
            bnd (alg (psub E x1 x2')) (\<lambda>dx.
            bnd (alg (pinner E ghx' dx)) (\<lambda>ip.
            bnd (alg (esub E dh ip)) (\<lambda>Dhx.
            bnd (api SetPerformanceMetric (set_performance_metric E Dhx)) (\<lambda>_.
            ret (x2', x2', gfx', ghx', hx2', hx2'))))))))))) (x0, x0, gf0, gh0, h0, h0))
         (\<lambda>(x1, x2, gfx, ghx, hx1, hx2).
     bnd (api OracleCall (oracle_at E func x2)) (\<lambda>(_, Fx).
     bnd (alg (esub E F0 Fx)) (\<lambda>dF.
     bnd (alg (le_const E dF 1)) (\<lambda>c.
     bnd (api SetInitialCondition (set_initial_condition E c)) (\<lambda>_.
     bnd (api Solve (solve E None)) (\<lambda>pepit_tau.
     bnd (lift (no_lips2_theoretical_tau gamma n)) (\<lambda>theoretical_tau.
     ret (pepit_tau, theoretical_tau)))))))))))))))))))))"

definition wc_no_lips2 ::
  "('s, 'e, 'p, 'x, 'c, 'f) engine \<Rightarrow> real \<Rightarrow> real \<Rightarrow> int
     \<Rightarrow> ('e failure + real \<times> real) \<times> 's \<times> event list" where
  "wc_no_lips2 E L gamma n = run (PEP E) (wc_no_lips2_steps E L gamma n)"


subsection \<open>\<open>accelerated_proximal_gradient.py\<close>\<close>

text \<open>
  The loop carries \<open>x_new\<close>, \<open>y\<close> and \<open>hx_new\<close>; the last one is bound only by the
  loop body (line 109).
\<close>

definition wc_accelerated_proximal_gradient_steps ::
  "('s, 'e, 'p, 'x, 'c, 'f) engine \<Rightarrow> real \<Rightarrow> real \<Rightarrow> int \<Rightarrow> ('s, 'e, real \<times> real) prog" where
  "wc_accelerated_proximal_gradient_steps E mu L n =
     bnd (api DeclareFunction
            (declare_function E (SmoothStronglyConvexFunction mu L) False)) (\<lambda>f.
     bnd (api DeclareFunction (declare_function E ConvexFunction False)) (\<lambda>h.
     bnd (alg (fadd E f h)) (\<lambda>F.
     bnd (api StationaryPoint (stationary_point E F)) (\<lambda>xs.
     bnd (api OracleCall (value_at E F xs)) (\<lambda>Fs.
     bnd (api SetInitialPoint (set_initial_point E)) (\<lambda>x0.
     bnd (distance_condition E x0 xs) (\<lambda>_.
     bnd (for_loop (range n) (\<lambda>i (x_new, y, hx_new).
            bnd (lift (truediv 1 L)) (\<lambda>c.
            bnd (api OracleCall (gradient E f y)) (\<lambda>g.
            bnd (alg (pscale E c g)) (\<lambda>t.
            bnd (alg (psub E y t)) (\<lambda>a.
            bnd (lift (truediv 1 L)) (\<lambda>step.
            bnd (api PrimitiveStep (proximal_step E a h step)) (\<lambda>(x_new', _, hx_new').
            bnd (lift (truediv (of_int i) (of_int (i + 3)))) (\<lambda>m.
            bnd (alg (psub E x_new' x_new)) (\<lambda>d.
            bnd (alg (pscale E m d)) (\<lambda>t'.
            bnd (alg (padd E x_new' t')) (\<lambda>y'.
            ret (x_new', y', Some hx_new')))))))))))) (x0, x0, None))
         (\<lambda>(x_new, y, hx_new).
     bnd (api OracleCall (value_at E f x_new)) (\<lambda>fx.
     bnd (var hx_new) (\<lambda>hx.
     bnd (alg (eadd E fx hx)) (\<lambda>Fx.
     bnd (alg (esub E Fx Fs)) (\<lambda>m.
     bnd (api SetPerformanceMetric (set_performance_metric E m)) (\<lambda>_.
     bnd (api Solve (solve E None)) (\<lambda>pepit_tau.
     bnd (lift (apg_theoretical_tau mu L n)) (\<lambda>theoretical_tau.
     ret (pepit_tau, theoretical_tau))))))))))))))))"

definition wc_accelerated_proximal_gradient ::
  "('s, 'e, 'p, 'x, 'c, 'f) engine \<Rightarrow> real \<Rightarrow> real \<Rightarrow> int
     \<Rightarrow> ('e failure + real \<times> real) \<times> 's \<times> event list" where
  "wc_accelerated_proximal_gradient E mu L n =
     run (PEP E) (wc_accelerated_proximal_gradient_steps E mu L n)"

subsection \<open>\<open>HeavyBallMethod.py\<close>\<close>

text \<open>The loop carries \<open>x_new\<close>, \<open>x_old\<close> and \<open>g_new\<close>.\<close>

definition wc_heavyball_steps ::
  "('s, 'e, 'p, 'x, 'c, 'f) engine \<Rightarrow> real \<Rightarrow> real \<Rightarrow> real \<Rightarrow> real \<Rightarrow> int
     \<Rightarrow> ('s, 'e, real) prog" where
  "wc_heavyball_steps E mu L alpha beta n =
     bnd (api DeclareFunction
            (declare_function E (SmoothStronglyConvexFunction mu L) False)) (\<lambda>func.
     bnd (api StationaryPoint (optimal_point E func)) (\<lambda>xs.
     bnd (api OracleCall (value_at E func xs)) (\<lambda>fs.
     bnd (api SetInitialPoint (set_initial_point E)) (\<lambda>x0.
     bnd (distance_condition E x0 xs) (\<lambda>_.
     bnd (api OracleCall (gradient E func x0)) (\<lambda>g_old.
     bnd (lift (truediv 1 L)) (\<lambda>c.
     bnd (alg (pscale E (c * alpha) g_old)) (\<lambda>t.
     bnd (alg (psub E x0 t)) (\<lambda>x1.
     bnd (api OracleCall (gradient E func x1)) (\<lambda>g1.
     bnd (for_loop (range n) (\<lambda>_ (x_new, x_old, g_new).
            bnd (lift (truediv alpha L)) (\<lambda>c'.
            bnd (alg (pscale E c' g_new)) (\<lambda>t'.
            bnd (alg (psub E x_new t')) (\<lambda>a.
            bnd (alg (psub E x_new x_old)) (\<lambda>d.
            bnd (alg (pscale E beta d)) (\<lambda>b.
            bnd (alg (padd E a b)) (\<lambda>x_new'.
            bnd (api OracleCall (gradient E func x_new')) (\<lambda>g_new'.
            ret (x_new', x_new, g_new'))))))))) (x1, x0, g1))
         (\<lambda>(x_new, x_old, g_new).
     bnd (api OracleCall (value_at E func x_new)) (\<lambda>fx.
     bnd (alg (esub E fx fs)) (\<lambda>m.
     bnd (api SetPerformanceMetric (set_performance_metric E m)) (\<lambda>_.
     bnd (api Solve (solve E None)) (\<lambda>wc.
     ret wc)))))))))))))))"

definition wc_heavyball ::
  "('s, 'e, 'p, 'x, 'c, 'f) engine \<Rightarrow> real \<Rightarrow> real \<Rightarrow> real \<Rightarrow> real \<Rightarrow> int
     \<Rightarrow> ('e failure + real) \<times> 's \<times> event list" where
  "wc_heavyball E mu L alpha beta n = run (PEP E) (wc_heavyball_steps E mu L alpha beta n)"

subsection \<open>\<open>accelerated_douglas_rachford_splitting.py\<close>\<close>

text \<open>
  Lines 95--102: the two functions, their sum, its optimal point and its value there.
\<close>

definition wc_adrs_declarations ::
  "('s, 'e, 'p, 'x, 'c, 'f) engine \<Rightarrow> real \<Rightarrow> real \<Rightarrow> ('s, 'e, 'f \<times> 'f \<times> 'f \<times> 'p \<times> 'x) prog" where
  "wc_adrs_declarations E mu L =
     bnd (api DeclareFunction (declare_function E ConvexFunction False)) (\<lambda>func1.
     bnd (api DeclareFunction
            (declare_function E (SmoothStronglyConvexFunction mu L) False)) (\<lambda>func2.
     bnd (alg (fadd E func1 func2)) (\<lambda>func.
     bnd (api StationaryPoint (stationary_point E func)) (\<lambda>xs.
     bnd (api OracleCall (value_at E func xs)) (\<lambda>fs.
     ret (func1, func2, func, xs, fs))))))"

text \<open>
  The body of the loop of lines 121--128 at index \<open>i\<close>. The loop carries the lists
  \<open>x\<close>, \<open>w\<close>, \<open>u\<close> and the variables \<open>y\<close> and \<open>fy\<close>, bound only by the loop body.
\<close>

definition wc_adrs_iteration ::
  "('s, 'e, 'p, 'x, 'c, 'f) engine \<Rightarrow> 'f \<Rightarrow> 'f \<Rightarrow> real \<Rightarrow> real \<Rightarrow> int
     \<Rightarrow> 'p list \<times> 'p list \<times> 'p list \<times> 'p option \<times> 'x option
     \<Rightarrow> ('s, 'e, 'p list \<times> 'p list \<times> 'p list \<times> 'p option \<times> 'x option) prog" where
  "wc_adrs_iteration E func1 func2 alpha theta i = (\<lambda>(x, w, u, y_prev, fy_prev).
     bnd (lift (getitem u i)) (\<lambda>ui.
     bnd (api PrimitiveStep (proximal_step E ui func2 alpha)) (\<lambda>(xi, _, _).
     bnd (lift (setitem x i xi)) (\<lambda>x.
     bnd (lift (getitem x i)) (\<lambda>xi.
     bnd (alg (pscale E 2 xi)) (\<lambda>t.
     bnd (lift (getitem u i)) (\<lambda>ui.
     bnd (alg (psub E t ui)) (\<lambda>a.
     bnd (api PrimitiveStep (proximal_step E a func1 alpha)) (\<lambda>(y, _, fy).
     bnd (lift (getitem u i)) (\<lambda>ui.
     bnd (lift (getitem x i)) (\<lambda>xi.
     bnd (alg (psub E y xi)) (\<lambda>d.
     bnd (alg (pscale E theta d)) (\<lambda>t.
     bnd (alg (padd E ui t)) (\<lambda>wn.
     bnd (lift (setitem w (i + 1) wn)) (\<lambda>w.
     bnd (if i \<ge> 1 then
            bnd (lift (getitem w (i + 1))) (\<lambda>w1.
            bnd (lift (truediv (of_int (i - 1)) (of_int (i + 2)))) (\<lambda>c.
            bnd (lift (getitem w (i + 1))) (\<lambda>w1'.
            bnd (lift (getitem w i)) (\<lambda>w0.
            bnd (alg (psub E w1' w0)) (\<lambda>d.
            bnd (alg (pscale E c d)) (\<lambda>t.
            bnd (alg (padd E w1 t)) (\<lambda>un.
            lift (setitem u (i + 1) un))))))))
          else
            bnd (lift (getitem w (i + 1))) (\<lambda>w1.
            lift (setitem u (i + 1) w1))) (\<lambda>u.
     ret (x, w, u, Some y, Some fy)))))))))))))))))"

definition wc_adrs_steps ::
  "('s, 'e, 'p, 'x, 'c, 'f) engine \<Rightarrow> real \<Rightarrow> real \<Rightarrow> real \<Rightarrow> int \<Rightarrow> ('s, 'e, real \<times> real) prog" where
  "wc_adrs_steps E mu L alpha n =
     bnd (wc_adrs_declarations E mu L) (\<lambda>(func1, func2, func, xs, fs).
     bnd (api OracleCall (oracle_at E func1 xs)) (\<lambda>(g1s, _).
     bnd (api OracleCall (oracle_at E func2 xs)) (\<lambda>(g2s, _).
     bnd (api SetInitialPoint (set_initial_point E)) (\<lambda>x0.
     bnd (api OracleCall (value_at E func x0)) (\<lambda>f0.
     bnd (lift (adrs_theta alpha L)) (\<lambda>theta.
     bnd (alg (pscale E alpha g2s)) (\<lambda>t.
     bnd (alg (padd E xs t)) (\<lambda>ws.
     bnd (distance_condition E ws x0) (\<lambda>_.
     bnd (for_loop (range n) (wc_adrs_iteration E func1 func2 alpha theta)
            (replicate (nat n) x0, replicate (nat (n + 1)) x0, replicate (nat (n + 1)) x0,
             None, None))
         (\<lambda>(x, w, u, y, fy).
     bnd (var y) (\<lambda>y.
     bnd (api OracleCall (value_at E func2 y)) (\<lambda>f2y.
     bnd (var fy) (\<lambda>fy.
     bnd (alg (eadd E f2y fy)) (\<lambda>Fy.
     bnd (alg (esub E Fy fs)) (\<lambda>m.
     bnd (api SetPerformanceMetric (set_performance_metric E m)) (\<lambda>_.
     bnd (api Solve (solve E None)) (\<lambda>pepit_tau.
     bnd (lift (adrs_theoretical_tau alpha theta n)) (\<lambda>theoretical_tau.
     ret (pepit_tau, theoretical_tau)))))))))))))))))))"

definition wc_adrs ::
  "('s, 'e, 'p, 'x, 'c, 'f) engine \<Rightarrow> real \<Rightarrow> real \<Rightarrow> real \<Rightarrow> int
     \<Rightarrow> ('e failure + real \<times> real) \<times> 's \<times> event list" where
  "wc_adrs E mu L alpha n = run (PEP E) (wc_adrs_steps E mu L alpha n)"


section \<open>The engine, from its specification\<close>

text \<open>
  Modelled from the spec: the engine itself (\<open>PEP\<close>, \<open>Function\<close>, \<open>Point\<close>,
  \<open>Expression\<close>, \<open>Constraint\<close>, \<open>proximal_step\<close>, \<open>bregman_gradient_step\<close>), of
  which the sources hold only the callers. All definitions of this section follow
  sections 3 and 4 of the specification. What the specification leaves to pluggable
  policies or to an external collaborator is a parameter: which class parameters
  \<open>declare_function\<close> admits, the inequalities a class emits for a pair of recorded
  triples, and the SDP solver.
\<close>

subsection \<open>Points, expressions, constraints\<close>

text \<open>
  Modelled from the spec: a Point is a linear combination of basis generators
  (numbered in creation order), with a creation-order key as its identity.
\<close>

record point =
  pkey :: nat
  coef :: "nat \<Rightarrow> real"

text \<open>
  Modelled from the spec: an Expression has a linear part over the scalar unknowns, a
  bilinear part and a constant. The bilinear part is kept in the form in which the
  Gram matrix reads it: the inner product of two Points, expanded over the pairs of
  basis generators and symmetrized.
\<close>

record expr =
  lin :: "nat \<Rightarrow> real"
  bil :: "nat \<times> nat \<Rightarrow> real"
  cst :: real

datatype relation = LeZero | EqZero

type_synonym constraint = "expr \<times> relation"

type_synonym triple = "point \<times> point \<times> expr"

text \<open>
  Modelled from the spec: a Function is declared with a class (a leaf) or combined
  from two Functions (sum, difference, scaling); each has its own identity.
\<close>

datatype func = Leaf nat | Sum nat func func | Diff nat func func | Scaled nat real func

fun fid :: "func \<Rightarrow> nat" where
  "fid (Leaf k) = k"
| "fid (Sum k f g) = k"
| "fid (Diff k f g) = k"
| "fid (Scaled k c f) = k"

datatype engine_error = FrozenTrajectory | ClassParameterViolation | SolveFailure | DivisionByZero

text \<open>
  Modelled from the spec: the Problem owns the counters of what was created, the
  declared Functions in declaration order, the oracle triples each Function recorded in
  call order, the constraints, the initial conditions and the performance metrics.
\<close>

record pep =
  next_key :: nat
  next_gen :: nat
  next_scal :: nat
  next_fun :: nat
  declared :: "(nat \<times> class_tag \<times> bool) list"
  recorded :: "nat \<Rightarrow> triple list"
  constraints :: "constraint list"
  initial_conditions :: "constraint list"
  metrics :: "expr list"
  frozen :: bool

definition empty_pep :: pep where
  "empty_pep = \<lparr>next_key = 0, next_gen = 0, next_scal = 0, next_fun = 0, declared = [],
     recorded = (\<lambda>_. []), constraints = [], initial_conditions = [], metrics = [],
     frozen = False\<rparr>"

definition make_point :: "(nat \<Rightarrow> real) \<Rightarrow> pep \<Rightarrow> point \<times> pep" where
  "make_point c s = (\<lparr>pkey = next_key s, coef = c\<rparr>, s\<lparr>next_key := Suc (next_key s)\<rparr>)"

definition new_generator :: "pep \<Rightarrow> point \<times> pep" where
  "new_generator s =
     make_point (\<lambda>i. if i = next_gen s then 1 else 0) (s\<lparr>next_gen := Suc (next_gen s)\<rparr>)"

definition new_scalar :: "pep \<Rightarrow> expr \<times> pep" where
  "new_scalar s =
     (\<lparr>lin = (\<lambda>i. if i = next_scal s then 1 else 0), bil = (\<lambda>_. 0), cst = 0\<rparr>,
      s\<lparr>next_scal := Suc (next_scal s)\<rparr>)"

definition add_points :: "point \<Rightarrow> point \<Rightarrow> pep \<Rightarrow> point \<times> pep" where
  "add_points p q = make_point (\<lambda>i. coef p i + coef q i)"

definition sub_points :: "point \<Rightarrow> point \<Rightarrow> pep \<Rightarrow> point \<times> pep" where
  "sub_points p q = make_point (\<lambda>i. coef p i - coef q i)"

definition scale_point :: "real \<Rightarrow> point \<Rightarrow> pep \<Rightarrow> point \<times> pep" where
  "scale_point c p = make_point (\<lambda>i. c * coef p i)"

definition inner_expr :: "point \<Rightarrow> point \<Rightarrow> expr" where
  "inner_expr p q =
     \<lparr>lin = (\<lambda>_. 0),
      bil = (\<lambda>(i, j). (coef p i * coef q j + coef p j * coef q i) / 2),
      cst = 0\<rparr>"

definition constant_expr :: "real \<Rightarrow> expr" where
  "constant_expr c = \<lparr>lin = (\<lambda>_. 0), bil = (\<lambda>_. 0), cst = c\<rparr>"

definition add_exprs :: "expr \<Rightarrow> expr \<Rightarrow> expr" where
  "add_exprs a b =
     \<lparr>lin = (\<lambda>i. lin a i + lin b i), bil = (\<lambda>k. bil a k + bil b k), cst = cst a + cst b\<rparr>"

definition sub_exprs :: "expr \<Rightarrow> expr \<Rightarrow> expr" where
  "sub_exprs a b =
     \<lparr>lin = (\<lambda>i. lin a i - lin b i), bil = (\<lambda>k. bil a k - bil b k), cst = cst a - cst b\<rparr>"

definition scale_expr :: "real \<Rightarrow> expr \<Rightarrow> expr" where
  "scale_expr c a = \<lparr>lin = (\<lambda>i. c * lin a i), bil = (\<lambda>k. c * bil a k), cst = c * cst a\<rparr>"

subsection \<open>Oracle calls\<close>

text \<open>
  Modelled from the spec: the pair cached for a point on a Function, looked up by the
  point's identity.
\<close>

definition cached :: "pep \<Rightarrow> nat \<Rightarrow> point \<Rightarrow> (point \<times> expr) option" where
  "cached s k p =
     map_option (\<lambda>(x, g, v). (g, v)) (find (\<lambda>(x, g, v). pkey x = pkey p) (recorded s k))"

definition record_triple :: "nat \<Rightarrow> triple \<Rightarrow> pep \<Rightarrow> pep" where
  "record_triple k t s = s\<lparr>recorded := (recorded s)(k := recorded s k @ [t])\<rparr>"

text \<open>
  Modelled from the spec: \<open>oracle(point)\<close>. A point already queried returns the cached
  pair. Otherwise a leaf creates a new basis generator (the gradient) and a new scalar
  unknown (the value); a combined Function delegates to its operands at the same
  point and combines what they return. The new triple is appended to the record.
\<close>

fun query :: "func \<Rightarrow> point \<Rightarrow> pep \<Rightarrow> (point \<times> expr) \<times> pep" where
  "query (Leaf k) p s =
     (case cached s k p of
        Some r \<Rightarrow> (r, s)
      | None \<Rightarrow>
          (case new_generator s of (g, s1) \<Rightarrow>
           case new_scalar s1 of (v, s2) \<Rightarrow>
             ((g, v), record_triple k (p, g, v) s2)))"
| "query (Sum k f1 f2) p s =
     (case cached s k p of
        Some r \<Rightarrow> (r, s)
      | None \<Rightarrow>
          (case query f1 p s of ((g1, v1), s1) \<Rightarrow>
           case query f2 p s1 of ((g2, v2), s2) \<Rightarrow>
           case add_points g1 g2 s2 of (g, s3) \<Rightarrow>
             ((g, add_exprs v1 v2), record_triple k (p, g, add_exprs v1 v2) s3)))"
| "query (Diff k f1 f2) p s =
     (case cached s k p of
        Some r \<Rightarrow> (r, s)
      | None \<Rightarrow>
          (case query f1 p s of ((g1, v1), s1) \<Rightarrow>
           case query f2 p s1 of ((g2, v2), s2) \<Rightarrow>
           case sub_points g1 g2 s2 of (g, s3) \<Rightarrow>
             ((g, sub_exprs v1 v2), record_triple k (p, g, sub_exprs v1 v2) s3)))"
| "query (Scaled k c f1) p s =
     (case cached s k p of
        Some r \<Rightarrow> (r, s)
      | None \<Rightarrow>
          (case query f1 p s of ((g1, v1), s1) \<Rightarrow>
           case scale_point c g1 s1 of (g, s2) \<Rightarrow>
             ((g, scale_expr c v1), record_triple k (p, g, scale_expr c v1) s2)))"

text \<open>Modelled from the spec: an oracle call after the trajectory is frozen is rejected.\<close>

definition pep_oracle :: "func \<Rightarrow> point \<Rightarrow> pep \<Rightarrow> engine_error + (point \<times> expr) \<times> pep" where
  "pep_oracle f p s = (if frozen s then Inl FrozenTrajectory else Inr (query f p s))"

definition pep_gradient :: "func \<Rightarrow> point \<Rightarrow> pep \<Rightarrow> engine_error + point \<times> pep" where
  "pep_gradient f p s =
     (case pep_oracle f p s of Inl e \<Rightarrow> Inl e | Inr ((g, v), s') \<Rightarrow> Inr (g, s'))"

definition pep_value :: "func \<Rightarrow> point \<Rightarrow> pep \<Rightarrow> engine_error + expr \<times> pep" where
  "pep_value f p s =
     (case pep_oracle f p s of Inl e \<Rightarrow> Inl e | Inr ((g, v), s') \<Rightarrow> Inr (v, s'))"

definition add_constraint :: "constraint \<Rightarrow> pep \<Rightarrow> pep" where
  "add_constraint c s = s\<lparr>constraints := constraints s @ [c]\<rparr>"

text \<open>
  Modelled from the spec: \<open>stationary_point()\<close> declares a new Point through a
  recorded oracle call whose gradient is constrained to be zero.
\<close>

definition pep_stationary_point :: "func \<Rightarrow> pep \<Rightarrow> engine_error + point \<times> pep" where
  "pep_stationary_point f s =
     (if frozen s then Inl FrozenTrajectory
      else case new_generator s of (x, s1) \<Rightarrow>
           case query f x s1 of ((g, v), s2) \<Rightarrow>
             Inr (x, add_constraint (inner_expr g g, EqZero) s2))"


subsection \<open>Primitive steps\<close>

text \<open>
  Modelled from the spec: \<open>proximal_step(point, function, step_size)\<close> creates the new
  point as a new unknown, records the oracle call on it and adds exactly one equality
  constraint, tying the new gradient to \<open>(point - new_point) / step_size\<close>.
\<close>

definition pep_proximal_step ::
  "point \<Rightarrow> func \<Rightarrow> real \<Rightarrow> pep \<Rightarrow> engine_error + (point \<times> point \<times> expr) \<times> pep" where
  "pep_proximal_step p f step_size s =
     (if frozen s then Inl FrozenTrajectory
      else case new_generator s of (x, s1) \<Rightarrow>
           case query f x s1 of ((g, v), s2) \<Rightarrow>
           case sub_points p x s2 of (d, s3) \<Rightarrow>
             if step_size = 0 then Inl DivisionByZero
             else case scale_point (1 / step_size) d s3 of (t, s4) \<Rightarrow>
                  case sub_points g t s4 of (r, s5) \<Rightarrow>
                    Inr ((x, g, v), add_constraint (inner_expr r r, EqZero) s5))"

text \<open>
  Modelled from the spec: \<open>bregman_gradient_step(gradient, bregman_gradient, function,
  step_size)\<close> does the same with the condition
  \<open>bregman_gradient(new) = bregman_gradient(old) - step_size * gradient\<close>.
\<close>

definition pep_bregman_gradient_step ::
  "point \<Rightarrow> point \<Rightarrow> func \<Rightarrow> real \<Rightarrow> pep \<Rightarrow> engine_error + (point \<times> point \<times> expr) \<times> pep" where
  "pep_bregman_gradient_step gr bg f step_size s =
     (if frozen s then Inl FrozenTrajectory
      else case new_generator s of (x, s1) \<Rightarrow>
           case query f x s1 of ((g, v), s2) \<Rightarrow>
           case scale_point step_size gr s2 of (t, s3) \<Rightarrow>
           case sub_points bg t s3 of (d, s4) \<Rightarrow>
           case sub_points g d s4 of (r, s5) \<Rightarrow>
             Inr ((x, g, v), add_constraint (inner_expr r r, EqZero) s5))"

subsection \<open>Problem assembly\<close>

text \<open>
  Modelled from the spec: \<open>declare_function\<close> registers a Function of a class; a
  violation of the class's parameter requirements is fatal at this point.
\<close>

definition pep_declare_function ::
  "(class_tag \<Rightarrow> bool) \<Rightarrow> class_tag \<Rightarrow> bool \<Rightarrow> pep \<Rightarrow> engine_error + func \<times> pep" where
  "pep_declare_function admits cls flag s =
     (if admits cls
      then Inr (Leaf (next_fun s),
                s\<lparr>next_fun := Suc (next_fun s),
                  declared := declared s @ [(next_fun s, cls, flag)]\<rparr>)
      else Inl ClassParameterViolation)"

definition pep_set_initial_point :: "pep \<Rightarrow> engine_error + point \<times> pep" where
  "pep_set_initial_point s = Inr (new_generator s)"

definition pep_set_initial_condition :: "constraint \<Rightarrow> pep \<Rightarrow> engine_error + unit \<times> pep" where
  "pep_set_initial_condition c s = Inr ((), s\<lparr>initial_conditions := initial_conditions s @ [c]\<rparr>)"

definition pep_set_performance_metric :: "expr \<Rightarrow> pep \<Rightarrow> engine_error + unit \<times> pep" where
  "pep_set_performance_metric e s = Inr ((), s\<lparr>metrics := metrics s @ [e]\<rparr>)"

text \<open>The ordered pairs of entries of a list at two different positions.\<close>

definition pairs :: "'a list \<Rightarrow> ('a \<times> 'a) list" where
  "pairs ts =
     concat (map (\<lambda>i. map (\<lambda>j. (ts ! i, ts ! j)) (filter (\<lambda>j. j \<noteq> i) [0..<length ts]))
       [0..<length ts])"

text \<open>
  Modelled from the spec: interpolation-constraint emission. For every declared
  Function and every pair of its recorded triples at different positions, the class
  emits its inequalities (\<open>policy\<close>) between the two points, gradients and values.
\<close>

type_synonym sample = "(nat \<Rightarrow> real) \<times> (nat \<Rightarrow> real) \<times> expr"

definition content :: "triple \<Rightarrow> sample" where
  "content t = (case t of (x, g, v) \<Rightarrow> (coef x, coef g, v))"

definition interpolation ::
  "(class_tag \<Rightarrow> sample \<Rightarrow> sample \<Rightarrow> constraint list) \<Rightarrow> pep \<Rightarrow> constraint list" where
  "interpolation policy s =
     concat (map (\<lambda>(k, cls, d).
         concat (map (\<lambda>(t, t'). policy cls (content t) (content t')) (pairs (recorded s k))))
       (declared s))"

text \<open>
  Modelled from the spec: \<open>solve\<close> freezes the Functions, emits their interpolation
  constraints and hands the problem to the solver; a solver failure is fatal.
\<close>

definition pep_solve ::
  "(class_tag \<Rightarrow> sample \<Rightarrow> sample \<Rightarrow> constraint list) \<Rightarrow> (string option \<Rightarrow> pep \<Rightarrow> real option)
     \<Rightarrow> string option \<Rightarrow> pep \<Rightarrow> engine_error + real \<times> pep" where
  "pep_solve policy solver heuristic s =
     (let s1 = s\<lparr>constraints := constraints s @ interpolation policy s, frozen := True\<rparr>
      in case solver heuristic s1 of
           None \<Rightarrow> Inl SolveFailure
         | Some tau \<Rightarrow> Inr (tau, s1))"

text \<open>Modelled from the spec: algebraic combination of Functions.\<close>

definition pep_fadd :: "func \<Rightarrow> func \<Rightarrow> pep \<Rightarrow> engine_error + func \<times> pep" where
  "pep_fadd f g s = Inr (Sum (next_fun s) f g, s\<lparr>next_fun := Suc (next_fun s)\<rparr>)"

definition pep_fsub :: "func \<Rightarrow> func \<Rightarrow> pep \<Rightarrow> engine_error + func \<times> pep" where
  "pep_fsub f g s = Inr (Diff (next_fun s) f g, s\<lparr>next_fun := Suc (next_fun s)\<rparr>)"

definition pep_fdiv :: "func \<Rightarrow> real \<Rightarrow> pep \<Rightarrow> engine_error + func \<times> pep" where
  "pep_fdiv f c s =
     (if c = 0 then Inl DivisionByZero
      else Inr (Scaled (next_fun s) (1 / c) f, s\<lparr>next_fun := Suc (next_fun s)\<rparr>))"

text \<open>
  Modelled from the spec: the engine as the scripts call it, for a choice of the
  admitted class parameters, the class inequalities and the solver.
\<close>

definition spec_engine ::
  "(class_tag \<Rightarrow> bool) \<Rightarrow> (class_tag \<Rightarrow> sample \<Rightarrow> sample \<Rightarrow> constraint list)
     \<Rightarrow> (string option \<Rightarrow> pep \<Rightarrow> real option)
     \<Rightarrow> (pep, engine_error, point, expr, constraint, func) engine" where
  "spec_engine admits policy solver =
     \<lparr>PEP = empty_pep,
      declare_function = pep_declare_function admits,
      set_initial_point = pep_set_initial_point,
      set_initial_condition = pep_set_initial_condition,
      set_performance_metric = pep_set_performance_metric,
      solve = pep_solve policy solver,
      stationary_point = pep_stationary_point,
      optimal_point = pep_stationary_point,
      oracle_at = pep_oracle,
      gradient = pep_gradient,
      value_at = pep_value,
      proximal_step = pep_proximal_step,
      bregman_gradient_step = pep_bregman_gradient_step,
      padd = (\<lambda>p q s. Inr (add_points p q s)),
      psub = (\<lambda>p q s. Inr (sub_points p q s)),
      pscale = (\<lambda>c p s. Inr (scale_point c p s)),
      psquare = (\<lambda>p s. Inr (inner_expr p p, s)),
      pinner = (\<lambda>p q s. Inr (inner_expr p q, s)),
      eadd = (\<lambda>a b s. Inr (add_exprs a b, s)),
      esub = (\<lambda>a b s. Inr (sub_exprs a b, s)),
      le_const = (\<lambda>a c s. Inr ((sub_exprs a (constant_expr c), LeZero), s)),
      fadd = pep_fadd,
      fsub = pep_fsub,
      fdiv = pep_fdiv\<rparr>"

text \<open>
  An instance for concrete runs: every class is admitted, no class emits an
  inequality, and the solver answers \<open>tau\<close>.
\<close>

definition demo_engine :: "real \<Rightarrow> (pep, engine_error, point, expr, constraint, func) engine" where
  "demo_engine tau = spec_engine (\<lambda>_. True) (\<lambda>_ _ _. []) (\<lambda>_ _. Some tau)"

section \<open>Properties of runs\<close>

text \<open>
  \<open>conforms m evs Q R\<close>: from any state, the program \<open>m\<close> either returns a value
  satisfying \<open>Q\<close> after recording exactly the calls \<open>evs\<close>, or stops with an exception
  after recording an initial part of \<open>evs\<close>; an exception \<open>e\<close> raised by the script
  itself, after the calls \<open>pre\<close>, satisfies \<open>R e pre\<close>.
\<close>

definition conforms ::
  "('s, 'e, 'a) prog \<Rightarrow> event list \<Rightarrow> ('a \<Rightarrow> bool) \<Rightarrow> (error \<Rightarrow> event list \<Rightarrow> bool) \<Rightarrow> bool" where
  "conforms m evs Q R \<longleftrightarrow> (\<forall>s tr. case m (s, tr) of
       (Inr a, s', tr') \<Rightarrow> tr' = tr @ evs \<and> Q a
     | (Inl (InEngine x), s', tr') \<Rightarrow> (\<exists>pre. tr' = tr @ pre \<and> prefix pre evs)
     | (Inl (Raised e), s', tr') \<Rightarrow> (\<exists>pre. tr' = tr @ pre \<and> prefix pre evs \<and> R e pre))"

text \<open>Every occurrence of \<open>a\<close> in a trace comes before the first occurrence of \<open>b\<close>.\<close>

definition precedes :: "event \<Rightarrow> event \<Rightarrow> event list \<Rightarrow> bool" where
  "precedes a b tr \<longleftrightarrow> a \<notin> set (dropWhile (\<lambda>e. e \<noteq> b) tr)"

text \<open>The calls of the life cycle that a complete run of each script makes, in order.\<close>

definition wc_gd_trace :: "int \<Rightarrow> event list" where
  "wc_gd_trace n =
     [DeclareFunction, StationaryPoint, OracleCall, SetInitialPoint, SetInitialCondition]
     @ concat (map (\<lambda>_. [OracleCall]) (range n))
     @ [OracleCall, SetPerformanceMetric, Solve]"

definition wc_gradient_descent_quadratics_trace :: "int \<Rightarrow> event list" where
  "wc_gradient_descent_quadratics_trace n =
     [DeclareFunction, StationaryPoint, OracleCall, SetInitialPoint, SetInitialCondition]
     @ concat (map (\<lambda>_. [OracleCall]) (range n))
     @ [OracleCall, SetPerformanceMetric, Solve]"

definition wc_past_extragradient_trace :: "int \<Rightarrow> event list" where
  "wc_past_extragradient_trace n =
     [DeclareFunction, DeclareFunction, StationaryPoint, SetInitialPoint, SetInitialCondition,
      PrimitiveStep, OracleCall]
     @ concat (map (\<lambda>_. [PrimitiveStep, OracleCall, PrimitiveStep]) (range n))
     @ [SetPerformanceMetric, Solve]"

definition wc_alternate_projections_trace :: "int \<Rightarrow> event list" where
  "wc_alternate_projections_trace n =
     [DeclareFunction, DeclareFunction, StationaryPoint, SetInitialPoint]
     @ concat (map (\<lambda>_. [PrimitiveStep, PrimitiveStep]) (range n))
     @ [PrimitiveStep, SetPerformanceMetric, SetInitialCondition, Solve]"

definition wc_no_lips2_trace :: "int \<Rightarrow> event list" where
  "wc_no_lips2_trace n =
     [DeclareFunction, DeclareFunction, DeclareFunction, SetInitialPoint,
      OracleCall, OracleCall, OracleCall]
     @ concat (map (\<lambda>_. [PrimitiveStep, OracleCall, OracleCall, SetPerformanceMetric]) (range n))
     @ [OracleCall, SetInitialCondition, Solve]"

definition wc_accelerated_proximal_gradient_trace :: "int \<Rightarrow> event list" where
  "wc_accelerated_proximal_gradient_trace n =
     [DeclareFunction, DeclareFunction, StationaryPoint, OracleCall, SetInitialPoint,
      SetInitialCondition]
     @ concat (map (\<lambda>_. [OracleCall, PrimitiveStep]) (range n))
     @ [OracleCall, SetPerformanceMetric, Solve]"

definition wc_heavyball_trace :: "int \<Rightarrow> event list" where
  "wc_heavyball_trace n =
     [DeclareFunction, StationaryPoint, OracleCall, SetInitialPoint, SetInitialCondition,
      OracleCall, OracleCall]
     @ concat (map (\<lambda>_. [OracleCall]) (range n))
     @ [OracleCall, SetPerformanceMetric, Solve]"

definition wc_adrs_trace :: "int \<Rightarrow> event list" where
  "wc_adrs_trace n =
     [DeclareFunction, DeclareFunction, StationaryPoint, OracleCall, OracleCall, OracleCall,
      SetInitialPoint, OracleCall, SetInitialCondition]
     @ concat (map (\<lambda>_. [PrimitiveStep, PrimitiveStep]) (range n))
     @ [OracleCall, SetPerformanceMetric, Solve]"

text \<open>
  A run keeps \<open>solve\<close> as its single, terminal call: every initial condition and every
  performance metric is set before \<open>solve\<close>, \<open>solve\<close> is called at most once, and a
  run that returns has called it exactly once, as its last call.
\<close>

definition terminal_solve :: "('e failure + 'a) \<times> 's \<times> event list \<Rightarrow> bool" where
  "terminal_solve r \<longleftrightarrow>
     precedes SetInitialCondition Solve (trace r) \<and>
     precedes SetPerformanceMetric Solve (trace r) \<and>
     count_list (trace r) Solve \<le> 1 \<and>
     (case outcome r of
        Inr v \<Rightarrow> count_list (trace r) Solve = 1 \<and> last (trace r) = Solve
      | Inl e \<Rightarrow> True)"

text \<open>
  The calls of \<open>wc_past_extragradient\<close> up to the loop (lines 90--107).
\<close>

definition wc_past_extragradient_setup :: "event list" where
  "wc_past_extragradient_setup = [DeclareFunction, DeclareFunction, StationaryPoint,
     SetInitialPoint, SetInitialCondition, PrimitiveStep, OracleCall]"

text \<open>
  The identities of a Function and of the Functions it is combined from. The engine
  gives every Function it creates a new identity, so they are distinct.
\<close>

fun fids :: "func \<Rightarrow> nat list" where
  "fids (Leaf k) = [k]"
| "fids (Sum k f g) = k # fids f @ fids g"
| "fids (Diff k f g) = k # fids f @ fids g"
| "fids (Scaled k c f) = k # fids f"

text \<open>The identities of the Functions a Function is combined from.\<close>

fun part_ids :: "func \<Rightarrow> nat set" where
  "part_ids (Leaf k) = {}"
| "part_ids (Sum k f g) = set (fids f) \<union> set (fids g)"
| "part_ids (Diff k f g) = set (fids f) \<union> set (fids g)"
| "part_ids (Scaled k c f) = set (fids f)"

text \<open>
  What a call of \<open>query\<close> leaves as it was: the frozen flag, the declared Functions
  and the triples recorded for the identities outside \<open>K\<close>.
\<close>

definition kept :: "nat set \<Rightarrow> pep \<Rightarrow> pep \<Rightarrow> bool" where
  "kept K s s' \<longleftrightarrow> frozen s' = frozen s \<and> declared s' = declared s
     \<and> (\<forall>k. k \<notin> K \<longrightarrow> recorded s' k = recorded s k)"

text \<open>
  A trajectory on a Function \<open>F\<close>: \<open>n\<close> oracle calls, each at a point that the client
  chooses from the answers so far. It returns the answers and the state reached.
\<close>

fun trajectory ::
  "func \<Rightarrow> ((point \<times> expr) list \<Rightarrow> point) \<Rightarrow> nat \<Rightarrow> pep
     \<Rightarrow> engine_error + (point \<times> expr) list \<times> pep" where
  "trajectory F pick 0 s = Inr ([], s)"
| "trajectory F pick (Suc n) s =
     (case trajectory F pick n s of
        Inl e \<Rightarrow> Inl e
      | Inr (answers, s1) \<Rightarrow>
          (case pep_oracle F (pick answers) s1 of
             Inl e \<Rightarrow> Inl e
           | Inr (r, s2) \<Rightarrow> Inr (answers @ [r], s2)))"

text \<open>
  What a trajectory shows: the answers of the oracle calls and the interpolation
  constraints that \<open>solve\<close> would emit in the state reached, or the error.
\<close>

definition observation ::
  "(class_tag \<Rightarrow> sample \<Rightarrow> sample \<Rightarrow> constraint list)
     \<Rightarrow> engine_error + (point \<times> expr) list \<times> pep
     \<Rightarrow> engine_error + (point \<times> expr) list \<times> constraint list" where
  "observation policy res =
     (case res of Inl e \<Rightarrow> Inl e | Inr (answers, s) \<Rightarrow> Inr (answers, interpolation policy s))"

text \<open>
  Two recorded triples are alike when they are at the same point and hold the same
  gradient and value; the gradient Points may have been created in a different order.
\<close>

definition alike :: "triple \<Rightarrow> triple \<Rightarrow> bool" where
  "alike t t' \<longleftrightarrow> fst t = fst t' \<and> content t = content t'"

text \<open>
  Two states agree outside the Function \<open>a\<close> when they have created the same basis
  generators and scalar unknowns, declared the same Functions and recorded alike triples
  for every Function but \<open>a\<close>.
\<close>

definition agree :: "nat \<Rightarrow> pep \<Rightarrow> pep \<Rightarrow> bool" where
  "agree a s s' \<longleftrightarrow> frozen s' = frozen s \<and> declared s' = declared s
     \<and> next_gen s' = next_gen s \<and> next_scal s' = next_scal s
     \<and> (\<forall>k. k \<noteq> a \<longrightarrow> list_all2 alike (recorded s k) (recorded s' k))"

text \<open>
  The states of two runs, one on \<open>(f1 + f2) + f3\<close> and one on \<open>f1 + (f2 + f3)\<close>, where
  \<open>b\<close> is the identity of the whole sum and \<open>a\<close> that of the inner sum: they agree
  outside \<open>a\<close>, have created as many Points, have the same record for \<open>b\<close>, and the
  inner sums have recorded no point that the whole sum has not.
\<close>

definition aligned :: "nat \<Rightarrow> nat \<Rightarrow> pep \<Rightarrow> pep \<Rightarrow> bool" where
  "aligned a b s s' \<longleftrightarrow> agree a s s' \<and> next_key s' = next_key s
     \<and> recorded s' b = recorded s b
     \<and> (\<forall>p. cached s b p = None \<longrightarrow> cached s a p = None \<and> cached s' a p = None)"

text \<open>No Function has recorded a point twice.\<close>

definition no_repeats :: "pep \<Rightarrow> bool" where
  "no_repeats s \<longleftrightarrow> (\<forall>k. distinct (map (\<lambda>t. pkey (fst t)) (recorded s k)))"

text \<open>
  In a Function built by the engine, the identity of every combination is different from
  the identities of what it combines.
\<close>

fun proper :: "func \<Rightarrow> bool" where
  "proper (Leaf k) = True"
| "proper (Sum k f g) = (k \<notin> set (fids f) \<and> k \<notin> set (fids g) \<and> proper f \<and> proper g)"
| "proper (Diff k f g) = (k \<notin> set (fids f) \<and> k \<notin> set (fids g) \<and> proper f \<and> proper g)"
| "proper (Scaled k c f) = (k \<notin> set (fids f) \<and> proper f)"

text \<open>A state in which three Functions are declared.\<close>

definition three_functions :: pep where
  "three_functions = empty_pep\<lparr>next_fun := 3,
     declared := [(0, ConvexFunction, False), (1, ConvexFunction, False),
       (2, ConvexIndicatorFunction, False)]\<rparr>"

section \<open>Rules for runs\<close>

lemma conforms_ret: "Q a \<Longrightarrow> conforms (ret a) [] Q R"
  by (simp add: conforms_def ret_def)

lemma conforms_raise: "R e [] \<Longrightarrow> conforms (raise e) evs Q R"
  by (simp add: conforms_def raise_def)

lemma conformsD:
  assumes "conforms m evs Q R" and "m (s, tr) = (r, s', tr')"
  shows "\<exists>pre. tr' = tr @ pre \<and> prefix pre evs \<and>
     (case r of Inr a \<Rightarrow> pre = evs \<and> Q a | Inl (InEngine x) \<Rightarrow> True | Inl (Raised e) \<Rightarrow> R e pre)"
proof -
  from assms(1) have "case m (s, tr) of
       (Inr a, s', tr') \<Rightarrow> tr' = tr @ evs \<and> Q a
     | (Inl (InEngine x), s', tr') \<Rightarrow> (\<exists>pre. tr' = tr @ pre \<and> prefix pre evs)
     | (Inl (Raised e), s', tr') \<Rightarrow> (\<exists>pre. tr' = tr @ pre \<and> prefix pre evs \<and> R e pre)"
    unfolding conforms_def by (elim allE [where x = s] allE [where x = tr])
  then show ?thesis unfolding assms(2)
    by (auto split: sum.splits failure.splits)
qed

lemma conformsI:
  assumes "\<And>s tr r s' tr'. m (s, tr) = (r, s', tr') \<Longrightarrow> \<exists>pre. tr' = tr @ pre \<and> prefix pre evs \<and>
     (case r of Inr a \<Rightarrow> pre = evs \<and> Q a | Inl (InEngine x) \<Rightarrow> True | Inl (Raised e) \<Rightarrow> R e pre)"
  shows "conforms m evs Q R"
  unfolding conforms_def
proof (intro allI)
  fix s tr
  obtain r s' tr' where m: "m (s, tr) = (r, s', tr')" by (cases "m (s, tr)")
  from assms [OF m] show "case m (s, tr) of
       (Inr a, s', tr') \<Rightarrow> tr' = tr @ evs \<and> Q a
     | (Inl (InEngine x), s', tr') \<Rightarrow> (\<exists>pre. tr' = tr @ pre \<and> prefix pre evs)
     | (Inl (Raised e), s', tr') \<Rightarrow> (\<exists>pre. tr' = tr @ pre \<and> prefix pre evs \<and> R e pre)"
    unfolding m by (auto split: sum.splits failure.splits)
qed

lemma conforms_bnd:
  assumes m: "conforms m e1 P R"
    and f: "\<And>a. P a \<Longrightarrow> conforms (f a) e2 Q (\<lambda>e pre. R e (e1 @ pre))"
  shows "conforms (bnd m f) (e1 @ e2) Q R"
proof (rule conformsI)
  fix s tr r s' tr'
  assume run: "bnd m f (s, tr) = (r, s', tr')"
  obtain r1 s1 tr1 where m1: "m (s, tr) = (r1, s1, tr1)" by (cases "m (s, tr)")
  from conformsD [OF m m1] obtain pre1 where
    tr1: "tr1 = tr @ pre1" and p1: "prefix pre1 e1" and
    c1: "case r1 of Inr a \<Rightarrow> pre1 = e1 \<and> P a | Inl (InEngine x) \<Rightarrow> True | Inl (Raised e) \<Rightarrow> R e pre1"
    by blast
  show "\<exists>pre. tr' = tr @ pre \<and> prefix pre (e1 @ e2) \<and>
     (case r of Inr a \<Rightarrow> pre = e1 @ e2 \<and> Q a | Inl (InEngine x) \<Rightarrow> True | Inl (Raised e) \<Rightarrow> R e pre)"
  proof (cases r1)
    case (Inl x)
    with run m1 have "r = Inl x" "tr' = tr1" by (simp_all add: bnd_def)
    moreover have "prefix pre1 (e1 @ e2)" using p1 by (rule prefix_prefix)
    ultimately show ?thesis using tr1 c1 Inl by (intro exI [of _ pre1]) simp
  next
    case (Inr a)
    with c1 have e: "pre1 = e1" and P: "P a" by simp_all
    from run m1 Inr have fa: "f a (s1, tr1) = (r, s', tr')" by (simp add: bnd_def)
    from conformsD [OF f [OF P] fa] obtain pre2 where
      tr2: "tr' = tr1 @ pre2" and p2: "prefix pre2 e2" and
      c2: "case r of Inr b \<Rightarrow> pre2 = e2 \<and> Q b | Inl (InEngine x) \<Rightarrow> True | Inl (Raised e) \<Rightarrow> R e (e1 @ pre2)"
      by blast
    show ?thesis
      using tr1 tr2 e p2 c2
      by (intro exI [of _ "e1 @ pre2"]) (simp split: sum.splits failure.splits)
  qed
qed

lemma conforms_api: "conforms (api ev op) [ev] (\<lambda>_. True) R"
  by (auto simp: conforms_def api_def split: sum.splits)

lemma conforms_alg: "conforms (alg op) [] (\<lambda>_. True) R"
  by (auto simp: conforms_def alg_def split: sum.splits)

lemma conforms_lift_Inr: "Q a \<Longrightarrow> conforms (lift (Inr a)) [] Q R"
  by (simp add: lift_def conforms_ret)

lemma conforms_lift_Inl: "R e [] \<Longrightarrow> conforms (lift (Inl e)) evs Q R"
  by (simp add: lift_def conforms_raise)


lemma conforms_api_bnd:
  "(\<And>a. conforms (f a) evs Q (\<lambda>e pre. R e (ev # pre))) \<Longrightarrow> conforms (bnd (api ev op) f) (ev # evs) Q R"
  using conforms_bnd [of "api ev op" "[ev]" "\<lambda>_. True" R f evs Q] conforms_api [of ev op R] by simp

lemma conforms_alg_bnd:
  "(\<And>a. conforms (f a) evs Q R) \<Longrightarrow> conforms (bnd (alg op) f) evs Q R"
  using conforms_bnd [of "alg op" "[]" "\<lambda>_. True" R f evs Q] conforms_alg [of op R] by simp

lemma conforms_loop:
  assumes "I a0"
    and "\<And>i a pre0. i \<in> set is \<Longrightarrow> I a \<Longrightarrow> conforms (body i a) (bevs i) I (\<lambda>e pre. R e (pre0 @ pre))"
  shows "conforms (for_loop is body a0) (concat (map bevs is)) I R"
  using assms
proof (induction "is" arbitrary: a0 R)
  case Nil
  then show ?case by (simp add: conforms_ret)
next
  case (Cons i "is")
  have b: "conforms (body i a0) (bevs i) I R"
    using Cons.prems(2) [of i a0 "[]"] Cons.prems(1) by simp
  have r: "conforms (for_loop is body a) (concat (map bevs is)) I (\<lambda>e pre. R e (bevs i @ pre))" if "I a" for a
  proof (rule Cons.IH [OF that])
    fix j a' pre0 assume "j \<in> set is" "I a'"
    then show "conforms (body j a') (bevs j) I (\<lambda>e pre. R e (bevs i @ pre0 @ pre))"
      using Cons.prems(2) [of j a' "bevs i @ pre0"] by simp
  qed
  show ?case using conforms_bnd [OF b r] by simp
qed

lemma conforms_bnd1:
  "conforms m [ev] P R \<Longrightarrow> (\<And>a. P a \<Longrightarrow> conforms (f a) evs Q (\<lambda>e pre. R e (ev # pre)))
    \<Longrightarrow> conforms (bnd m f) (ev # evs) Q R"
  using conforms_bnd [of m "[ev]" P R f evs Q] by simp

lemma conforms_lift_bnd:
  "(\<And>e. r = Inl e \<Longrightarrow> R e []) \<Longrightarrow> (\<And>a. r = Inr a \<Longrightarrow> conforms (f a) evs Q R)
     \<Longrightarrow> conforms (bnd (lift r) f) evs Q R"
  by (cases r) (simp_all add: lift_def bnd_def ret_def raise_def conforms_def)

lemma distance_condition_conforms:
  "conforms (distance_condition E a b) [SetInitialCondition] (\<lambda>_. True) R"
  unfolding distance_condition_def
  by (intro conforms_alg_bnd conforms_api)

lemma conforms_run:
  assumes "conforms m evs Q R"
  shows "prefix (trace (run s0 m)) evs"
    and "outcome (run s0 m) = Inr a \<Longrightarrow> trace (run s0 m) = evs \<and> Q a"
    and "outcome (run s0 m) = Inl (Raised e) \<Longrightarrow> R e (trace (run s0 m))"
proof -
  obtain r s' tr' where m: "m (s0, []) = (r, s', tr')" by (cases "m (s0, [])")
  from conformsD [OF assms m] obtain pre where
    p: "tr' = [] @ pre" "prefix pre evs"
    "case r of Inr a \<Rightarrow> pre = evs \<and> Q a | Inl (InEngine x) \<Rightarrow> True | Inl (Raised e) \<Rightarrow> R e pre"
    by blast
  show "prefix (trace (run s0 m)) evs" using p m by (simp add: trace_def run_def)
  show "outcome (run s0 m) = Inr a \<Longrightarrow> trace (run s0 m) = evs \<and> Q a"
    using p m by (simp add: trace_def run_def outcome_def)
  show "outcome (run s0 m) = Inl (Raised e) \<Longrightarrow> R e (trace (run s0 m))"
    using p m by (simp add: trace_def run_def outcome_def)
qed

text \<open>The equations that evaluate a run on the engine of the specification.\<close>

lemmas run_simps = demo_engine_def spec_engine_def run_def bnd_def api_def alg_def ret_def
  raise_def lift_def var_def distance_condition_def range_def outcome_def trace_def
  pep_declare_function_def pep_set_initial_point_def pep_set_initial_condition_def
  pep_set_performance_metric_def pep_solve_def pep_stationary_point_def pep_oracle_def
  pep_gradient_def pep_value_def pep_proximal_step_def pep_bregman_gradient_step_def
  pep_fadd_def pep_fsub_def pep_fdiv_def empty_pep_def new_generator_def new_scalar_def
  make_point_def add_points_def sub_points_def scale_point_def cached_def record_triple_def
  add_constraint_def truediv_def upt_rec getitem_def setitem_def

section \<open>Gradient descent: the reference value\<close>

lemma gd_theoretical_tau_eq: "gd_theoretical_tau L n = Inr (L / (2 * (2 * of_int n + 1)))"
proof -
  have "2 * n + 1 \<noteq> 0" by presburger
  then have "(of_int (2 * n + 1) :: real) \<noteq> 0" by (simp only: of_int_eq_0_iff not_False_eq_True)
  then have "2 * (2 * real_of_int n + 1) \<noteq> 0" by simp
  then show ?thesis by (simp add: gd_theoretical_tau_def truediv_def)
qed

lemma wc_gd_steps_conforms:
  "conforms (wc_gd_steps E L gamma n) (wc_gd_trace n)
     (\<lambda>(tau, th). th = L / (2 * (2 * of_int n + 1))) (\<lambda>_ _. False)"
  unfolding wc_gd_steps_def wc_gd_trace_def append_Cons append_Nil gd_theoretical_tau_eq
  apply (rule conforms_api_bnd)+
  apply (rule conforms_bnd1 [OF distance_condition_conforms])
  apply (rule conforms_bnd [where P = "\<lambda>_. True"])
   apply (rule conforms_loop [where I = "\<lambda>_. True" and bevs = "\<lambda>_. [OracleCall]"])
    apply simp
   apply (intro conforms_api_bnd conforms_alg_bnd conforms_alg)
  apply (intro conforms_api_bnd conforms_alg_bnd conforms_lift_bnd conforms_ret; simp)
  done

lemma wc_gd_second_component:
  assumes "outcome (wc_gd E L gamma n) = Inr (tau, th)"
  shows "th = L / (2 * (2 * of_int n + 1))"
  using conforms_run(2) [OF wc_gd_steps_conforms, of "PEP E" E L gamma n "(tau, th)"] assms
  by (simp add: wc_gd_def)

lemma demo_wc_gd_n2: "outcome (wc_gd (demo_engine t) 1 1 2) = Inr (t, 1 / 10)"
  by (simp add: wc_gd_def wc_gd_steps_def gd_theoretical_tau_def run_simps)

text \<open>
  Claim C2, as stated, fails: at \<open>L = 1\<close> and \<open>n = 2\<close> the closed form that line 92 of
  \<open>gradient_descent.py\<close> computes is \<open>1 / (2 * 5) = 0.1\<close>, and \<open>0.1\<close> is not within
  \<open>0.05\<close> of \<open>0.2\<close>.
\<close>

theorem gd_reference_value_not_one_fifth:
  "gd_theoretical_tau 1 2 = Inr (1 / 10) \<and> \<not> within_tolerance (1 / 20) (1 / 10) (2 / 10)"
  by (simp add: gd_theoretical_tau_def truediv_def within_tolerance_def)

text \<open>
  Claim C2, amended: for \<open>n = 2\<close>, \<open>L = 1\<close> and \<open>gamma = 1\<close> the closed form
  \<open>L / (2 * (2 * n + 1))\<close> is \<open>0.1\<close>, and every run of \<open>wc_gd\<close> with these parameters
  that returns has \<open>0.1\<close> as its second component, on every engine.
\<close>

theorem wc_gd_reference_value_at_main_parameters:
  "gd_theoretical_tau 1 2 = Inr (1 / 10) \<and>
   (outcome (wc_gd E 1 1 2) = Inr (tau, th) \<longrightarrow> th = 1 / 10)"
proof (intro conjI impI)
  show "gd_theoretical_tau 1 2 = Inr (1 / 10)"
    by (simp add: gd_theoretical_tau_def truediv_def)
  assume "outcome (wc_gd E 1 1 2) = Inr (tau, th)"
  from wc_gd_second_component [OF this] show "th = 1 / 10" by simp
qed

theorem wc_gd_reference_value_at_main_parameters_witness:
  "outcome (wc_gd (demo_engine 0) 1 1 2) = Inr (0, 1 / 10)
   \<and> gd_theoretical_tau 1 2 = Inr (1 / 10)"
  using wc_gd_reference_value_at_main_parameters [of "demo_engine 0" 0 "1 / 10"]
    demo_wc_gd_n2 [of 0]
  by simp

section \<open>Python floats: rounding\<close>

lemma binade_from_bounds: "e \<le> binade_from k e a \<and> binade_from k e a \<le> e + int k"
  by (induction k e a rule: binade_from.induct) auto

lemma binade_from_lower:
  "2 powi e \<le> a \<or> e < binade_from k e a \<Longrightarrow> 2 powi (binade_from k e a) \<le> a"
proof (induction k e a rule: binade_from.induct)
  case (1 e a)
  then show ?case by simp
next
  case (2 k e a)
  show ?case
  proof (cases "2 powi (e + 1) \<le> a")
    case True
    then show ?thesis using 2 by simp
  next
    case False
    then show ?thesis using 2 by simp
  qed
qed

lemma binade_from_upper:
  "binade_from k e a < e + int k \<Longrightarrow> a < 2 powi (binade_from k e a + 1)"
proof (induction k e a rule: binade_from.induct)
  case (1 e a)
  then show ?case by simp
next
  case (2 k e a)
  show ?case
  proof (cases "2 powi (e + 1) \<le> a")
    case True
    then show ?thesis using 2 by simp
  next
    case False
    then show ?thesis by simp
  qed
qed

lemma binade_range: "- 1022 \<le> binade a" "binade a \<le> 1023"
  using binade_from_bounds [of "- 1022" 2045 a] by (simp_all add: binade_def)

lemma binade_lower: "2 powi (- 1022) \<le> a \<or> - 1022 < binade a \<Longrightarrow> 2 powi (binade a) \<le> a"
  unfolding binade_def by (rule binade_from_lower) simp

lemma binade_upper: "a < 2 ^ 1024 \<Longrightarrow> a < 2 powi (binade a + 1)"
proof (cases "binade a < 1023")
  case True
  then show ?thesis using binade_from_upper [of 2045 "- 1022" a] by (simp add: binade_def)
next
  case False
  assume "a < 2 ^ 1024"
  moreover from False binade_range(2) [of a] have "binade a = 1023" by simp
  ultimately show ?thesis by simp
qed

lemma round_half_even_of_int: "round_half_even (of_int m) = m"
  by (simp add: round_half_even_def)

lemma round_half_even_le: "y \<le> of_int m \<Longrightarrow> round_half_even y \<le> m"
proof -
  assume a: "y \<le> of_int m"
  have f: "\<lfloor>y\<rfloor> \<le> m" using a by (simp add: floor_le_iff)
  show ?thesis
  proof (cases "\<lfloor>y\<rfloor> = m")
    case True
    then have "y = of_int m" using a of_int_floor_le [of y] by linarith
    then show ?thesis by (simp add: round_half_even_of_int)
  next
    case False
    with f have "\<lfloor>y\<rfloor> + 1 \<le> m" by simp
    then show ?thesis by (simp add: round_half_even_def Let_def)
  qed
qed

lemma round_half_even_ge: "of_int m \<le> y \<Longrightarrow> m \<le> round_half_even y"
proof -
  assume "of_int m \<le> y"
  then have "m \<le> \<lfloor>y\<rfloor>" by (simp add: le_floor_iff)
  then show ?thesis by (simp add: round_half_even_def Let_def)
qed

lemma round_half_even_zero_iff:
  "0 \<le> y \<Longrightarrow> round_half_even y = 0 \<longleftrightarrow> y \<le> 1 / 2"
proof -
  assume y: "0 \<le> y"
  show ?thesis
  proof (cases "y < 1")
    case True
    with y have "\<lfloor>y\<rfloor> = 0" by (simp add: floor_eq_iff)
    then show ?thesis by (auto simp: round_half_even_def Let_def)
  next
    case False
    then have "of_int 1 \<le> y" by simp
    from round_half_even_ge [OF this] False show ?thesis by simp
  qed
qed

lemma ulp_pos: "0 < (2::real) powi k"
  by simp

lemma two_powi_le_iff: "(2::real) powi m \<le> 2 powi n \<longleftrightarrow> m \<le> n"
proof
  assume a: "(2::real) powi m \<le> 2 powi n"
  show "m \<le> n"
  proof (rule ccontr)
    assume "\<not> m \<le> n"
    then have "(2::real) powi n < 2 powi m" by (intro power_int_strict_increasing) simp_all
    with a show False by simp
  qed
next
  assume "m \<le> n"
  then show "(2::real) powi m \<le> 2 powi n" by (intro power_int_increasing) simp_all
qed

lemma two_powi_split: "(2::real) powi (a + b) = 2 powi a * 2 powi b"
  by (rule power_int_add) simp

lemma rounded_0: "rounded 0 = 0"
  by (simp add: rounded_def round_half_even_def)

lemma rounded_nonneg: "0 \<le> x \<Longrightarrow> 0 \<le> rounded x"
proof -
  assume "0 \<le> x"
  then have "of_int 0 \<le> x / 2 powi (binade \<bar>x\<bar> - 52)" by simp
  from round_half_even_ge [OF this] show ?thesis by (simp add: rounded_def Let_def)
qed

lemma rounded_nonpos: "x \<le> 0 \<Longrightarrow> rounded x \<le> 0"
proof -
  assume "x \<le> 0"
  then have "x / 2 powi (binade \<bar>x\<bar> - 52) \<le> of_int 0" by (simp add: divide_nonpos_pos)
  from round_half_even_le [OF this] show ?thesis
    by (simp add: rounded_def Let_def mult_nonpos_nonneg)
qed

text \<open>A bound that lies on the grid of the binade of \<open>x\<close> also bounds the rounded value.\<close>

lemma rounded_abs_le_grid:
  assumes "\<bar>x\<bar> \<le> of_int M * 2 powi j" and "binade \<bar>x\<bar> - 52 \<le> j"
  shows "\<bar>rounded x\<bar> \<le> of_int M * 2 powi j"
proof -
  define e where "e = binade \<bar>x\<bar> - 52"
  define u :: real where "u = 2 powi e"
  define N where "N = M * 2 ^ nat (j - e)"
  have u: "0 < u" by (simp add: u_def)
  have "(2::real) powi j = 2 powi (j - e) * 2 powi e" using two_powi_split [of "j - e" e] by simp
  also have "(2::real) powi (j - e) = 2 ^ nat (j - e)"
    using assms(2) by (simp add: e_def power_int_def)
  finally have g: "of_int M * 2 powi j = of_int N * u" by (simp add: N_def u_def)
  have "\<bar>x\<bar> \<le> of_int N * u" using assms(1) g by simp
  then have "\<bar>x\<bar> / u \<le> of_int N" using u by (simp add: pos_divide_le_eq)
  then have a: "\<bar>x / u\<bar> \<le> of_int N" using u by (simp add: abs_divide)
  then have "x / u \<le> of_int N" by linarith
  then have h1: "round_half_even (x / u) \<le> N" by (rule round_half_even_le)
  from a have "- of_int N \<le> x / u" by linarith
  then have "of_int (- N) \<le> x / u" by simp
  then have h2: "- N \<le> round_half_even (x / u)" by (rule round_half_even_ge)
  note h1 h2
  then have "\<bar>round_half_even (x / u)\<bar> \<le> N" by simp
  then have "\<bar>of_int (round_half_even (x / u)) :: real\<bar> \<le> of_int N" by linarith
  then have "\<bar>of_int (round_half_even (x / u)) * u\<bar> \<le> of_int N * u"
    using u by (simp add: abs_mult)
  then show ?thesis by (simp add: rounded_def Let_def g flip: u_def e_def)
qed

lemma binade_le:
  assumes "\<bar>x\<bar> \<le> 2 powi k" and "- 1022 \<le> k"
  shows "binade \<bar>x\<bar> \<le> k"
proof (cases "- 1022 < binade \<bar>x\<bar>")
  case True
  then have "2 powi (binade \<bar>x\<bar>) \<le> \<bar>x\<bar>" by (simp add: binade_lower)
  with assms(1) have "(2::real) powi (binade \<bar>x\<bar>) \<le> 2 powi k" by simp
  then show ?thesis by (simp add: two_powi_le_iff)
next
  case False
  with assms(2) show ?thesis by simp
qed

lemma binade_small: "\<bar>x\<bar> < 2 powi (- 1021) \<Longrightarrow> binade \<bar>x\<bar> = - 1022"
proof (rule ccontr)
  assume s: "\<bar>x\<bar> < 2 powi (- 1021)" and "binade \<bar>x\<bar> \<noteq> - 1022"
  with binade_range(1) [of "\<bar>x\<bar>"] have b: "- 1022 < binade \<bar>x\<bar>" by simp
  then have l: "2 powi (binade \<bar>x\<bar>) \<le> \<bar>x\<bar>" by (simp add: binade_lower)
  from b have "- 1021 \<le> binade \<bar>x\<bar>" by simp
  then have "(2::real) powi (- 1021) \<le> 2 powi (binade \<bar>x\<bar>)" by (simp only: two_powi_le_iff)
  with l s show False by linarith
qed

lemma rounded_abs_le:
  assumes "\<bar>x\<bar> \<le> 2 powi k" and "- 1074 \<le> k"
  shows "\<bar>rounded x\<bar> \<le> 2 powi k"
proof -
  have "binade \<bar>x\<bar> - 52 \<le> k"
  proof (cases "- 1022 \<le> k")
    case True
    from binade_le [OF assms(1) this] show ?thesis by simp
  next
    case False
    then have "k < - 1022" by simp
    have "\<bar>x\<bar> < 2 powi (- 1021)"
    proof -
      from False have "k \<le> - 1022" by simp
      then have "(2::real) powi k \<le> 2 powi (- 1022)" by (simp only: two_powi_le_iff)
      moreover have "(2::real) powi (- 1022) < 2 powi (- 1021)"
        by (intro power_int_strict_increasing) simp_all
      ultimately show ?thesis using assms(1) by linarith
    qed
    then have "binade \<bar>x\<bar> = - 1022" by (rule binade_small)
    with assms(2) show ?thesis by simp
  qed
  from rounded_abs_le_grid [of x 1 k] assms(1) this show ?thesis by simp
qed

lemma rounded_ge:
  assumes "2 powi k \<le> x" and "- 1074 \<le> k"
  shows "2 powi k \<le> rounded x"
proof -
  define e where "e = binade \<bar>x\<bar> - 52"
  define u :: real where "u = 2 powi e"
  have u: "0 < u" by (simp add: u_def)
  have x: "0 < x" using assms(1) ulp_pos [of k] by linarith
  have r: "rounded x = of_int (round_half_even (x / u)) * u"
    by (simp add: rounded_def Let_def u_def e_def)
  show ?thesis
  proof (cases "e \<le> k")
    case True
    define N :: int where "N = 2 ^ nat (k - e)"
    have "(2::real) powi k = 2 powi (k - e) * 2 powi e" using two_powi_split [of "k - e" e] by simp
    also have "(2::real) powi (k - e) = 2 ^ nat (k - e)" using True by (simp add: power_int_def)
    finally have g: "2 powi k = of_int N * u" by (simp add: N_def u_def)
    have "of_int N \<le> x / u" using assms(1) g u by (simp add: pos_le_divide_eq)
    then have "N \<le> round_half_even (x / u)" by (rule round_half_even_ge)
    then have "(of_int N :: real) \<le> of_int (round_half_even (x / u))" by linarith
    then have "of_int N * u \<le> of_int (round_half_even (x / u)) * u" using u by simp
    then show ?thesis by (simp add: r g)
  next
    case False
    then have b: "- 1022 < binade \<bar>x\<bar>" using assms(2) by (simp add: e_def)
    then have l: "2 powi (binade \<bar>x\<bar>) \<le> x" using binade_lower [of "\<bar>x\<bar>"] x by simp
    have "(2::real) powi (binade \<bar>x\<bar>) = 2 powi 52 * 2 powi e"
      using two_powi_split [of 52 e] by (simp add: e_def)
    then have g: "2 powi (binade \<bar>x\<bar>) = of_int (2 ^ 52) * u" by (simp add: u_def)
    have "of_int (2 ^ 52) \<le> x / u" using l g u by (simp add: pos_le_divide_eq)
    then have "2 ^ 52 \<le> round_half_even (x / u)" by (rule round_half_even_ge)
    then have "(of_int (2 ^ 52) :: real) \<le> of_int (round_half_even (x / u))" by linarith
    then have "of_int (2 ^ 52) * u \<le> of_int (round_half_even (x / u)) * u" using u by simp
    then have "2 powi (binade \<bar>x\<bar>) \<le> rounded x" by (simp only: r g)
    moreover have "(2::real) powi k \<le> 2 powi (binade \<bar>x\<bar>)"
      using False by (simp add: e_def two_powi_le_iff)
    ultimately show ?thesis by linarith
  qed
qed

lemma rounded_subnormal:
  "\<bar>x\<bar> < 2 powi (- 1021) \<Longrightarrow>
     rounded x = of_int (round_half_even (x / 2 powi (- 1074))) * 2 powi (- 1074)"
  unfolding rounded_def Let_def by (simp only: binade_small) simp

lemma rounded_zero_iff:
  assumes "0 \<le> x"
  shows "rounded x = 0 \<longleftrightarrow> x \<le> 2 powi (- 1075)"
proof (cases "2 powi (- 1074) \<le> x")
  case True
  from rounded_ge [OF True] have "2 powi (- 1074) \<le> rounded x" by simp
  moreover have "(0::real) < 2 powi (- 1074)" by (rule ulp_pos)
  moreover have "(2::real) powi (- 1075) < 2 powi (- 1074)"
    by (intro power_int_strict_increasing) simp_all
  ultimately show ?thesis using True by linarith
next
  case False
  have "(2::real) powi (- 1074) \<le> 2 powi (- 1021)" by (simp only: two_powi_le_iff)
  with False assms have "\<bar>x\<bar> < 2 powi (- 1021)" by linarith
  then have r: "rounded x = of_int (round_half_even (x / 2 powi (- 1074))) * 2 powi (- 1074)"
    by (rule rounded_subnormal)
  have u: "(0::real) < 2 powi (- 1074)" by (rule ulp_pos)
  have h: "(2::real) powi (- 1075) = 1 / 2 * 2 powi (- 1074)"
    using two_powi_split [of "- 1" "- 1074"] by simp
  have "rounded x = 0 \<longleftrightarrow> round_half_even (x / 2 powi (- 1074)) = 0"
    unfolding r using u by simp
  also have "\<dots> \<longleftrightarrow> x / 2 powi (- 1074) \<le> 1 / 2"
    using assms by (intro round_half_even_zero_iff) simp
  also have "\<dots> \<longleftrightarrow> x \<le> 2 powi (- 1075)"
    unfolding h using u by (simp only: pos_divide_le_eq)
  finally show ?thesis .
qed

lemma rounded_pos_ge:
  assumes "0 < rounded x"
  shows "2 powi (- 1074) \<le> rounded x"
proof (cases "2 powi (- 1074) \<le> x")
  case True
  from rounded_ge [OF True] show ?thesis by simp
next
  case False
  have x: "0 < x" using assms rounded_nonpos [of x] by linarith
  have "(2::real) powi (- 1074) \<le> 2 powi (- 1021)" by (simp only: two_powi_le_iff)
  with False x have "\<bar>x\<bar> < 2 powi (- 1021)" by linarith
  then have r: "rounded x = of_int (round_half_even (x / 2 powi (- 1074))) * 2 powi (- 1074)"
    by (rule rounded_subnormal)
  have u: "(0::real) < 2 powi (- 1074)" by (rule ulp_pos)
  from assms have "0 < (of_int (round_half_even (x / 2 powi (- 1074))) :: real)"
    unfolding r using u by (simp only: zero_less_mult_iff) linarith
  then have "1 \<le> round_half_even (x / 2 powi (- 1074))" by linarith
  then have "(1::real) \<le> of_int (round_half_even (x / 2 powi (- 1074)))" by linarith
  then have "1 * 2 powi (- 1074) \<le> of_int (round_half_even (x / 2 powi (- 1074))) * (2::real) powi (- 1074)"
    using u by (intro mult_right_mono) simp_all
  then show ?thesis unfolding r by (simp only: mult_1)
qed

lemma rounded_le_max_double:
  assumes "\<bar>x\<bar> \<le> max_double"
  shows "\<bar>rounded x\<bar> \<le> max_double"
proof -
  have m: "max_double = of_int (2 ^ 53 - 1) * 2 powi 971" by (simp add: max_double_def)
  have "binade \<bar>x\<bar> - 52 \<le> 971" using binade_range(2) [of "\<bar>x\<bar>"] by simp
  from rounded_abs_le_grid [of x "2 ^ 53 - 1" 971] assms this show ?thesis
    by (simp only: m)
qed

lemma huge_powi: "huge = 2 powi 1024"
  by (simp add: huge_def)

lemma max_double_less_huge: "max_double < huge"
  by (simp add: max_double_def huge_def)

lemma to_double_cases:
  "to_double x = (if huge \<le> rounded x then PosInf
     else if rounded x \<le> - huge then NegInf else Num (rounded x))"
  by (simp add: to_double_def Let_def)

lemma big_rounded:
  assumes "- 1074 \<le> k" and "2 powi k < rounded x"
  shows "2 powi k < x"
proof (rule ccontr)
  assume "\<not> 2 powi k < x"
  then have x: "x \<le> 2 powi k" by simp
  show False
  proof (cases "x \<le> 0")
    case True
    from rounded_nonpos [OF this] assms(2) ulp_pos [of k] show False by linarith
  next
    case False
    with x have "\<bar>x\<bar> \<le> 2 powi k" by simp
    from rounded_abs_le [OF this assms(1)] assms(2) show False by linarith
  qed
qed

lemma small_rounded:
  assumes "- 1074 \<le> k" and "rounded x < - (2 powi k)"
  shows "x < - (2 powi k)"
proof (rule ccontr)
  assume "\<not> x < - (2 powi k)"
  then have x: "- (2 powi k) \<le> x" by simp
  show False
  proof (cases "0 \<le> x")
    case True
    from rounded_nonneg [OF this] assms(2) ulp_pos [of k] show False by linarith
  next
    case False
    with x have "\<bar>x\<bar> \<le> 2 powi k" by simp
    from rounded_abs_le [OF this assms(1)] assms(2) show False by linarith
  qed
qed

lemma nonneg_iff: "nonneg v \<longleftrightarrow> v = PosInf \<or> (\<exists>r. v = Num r \<and> 0 \<le> r)"
  by (cases v) (simp_all add: nonneg_def float_le_def)

lemma to_double_nonneg: "0 \<le> x \<Longrightarrow> nonneg (to_double x)"
proof -
  assume "0 \<le> x"
  then have "0 \<le> rounded x" by (rule rounded_nonneg)
  moreover have "0 < huge" by (simp add: huge_def)
  ultimately show ?thesis by (simp add: to_double_cases nonneg_iff)
qed

lemma to_double_PosInf: "to_double x = PosInf \<Longrightarrow> 2 powi 1023 < x"
proof -
  assume "to_double x = PosInf"
  then have "huge \<le> rounded x" by (simp add: to_double_cases split: if_splits)
  moreover have "(2::real) powi 1023 < huge"
    unfolding huge_powi by (intro power_int_strict_increasing) simp_all
  ultimately have "2 powi 1023 < rounded x" by linarith
  from big_rounded [OF _ this] show ?thesis by simp
qed

lemma to_double_NegInf: "to_double x = NegInf \<Longrightarrow> x < - (2 powi 1023)"
proof -
  assume "to_double x = NegInf"
  then have "rounded x \<le> - huge" by (simp add: to_double_cases split: if_splits)
  moreover have "(2::real) powi 1023 < huge"
    unfolding huge_powi by (intro power_int_strict_increasing) simp_all
  ultimately have "rounded x < - (2 powi 1023)" by linarith
  from small_rounded [OF _ this] show ?thesis by simp
qed

lemma to_double_Num: "to_double x = Num y \<Longrightarrow> y = rounded x \<and> \<bar>y\<bar> < huge"
  by (auto simp: to_double_cases split: if_splits)

lemma to_double_0: "to_double 0 = Num 0"
  by (simp add: to_double_cases rounded_0 huge_def)

lemma to_double_1: "to_double 1 = Num 1"
proof -
  have "\<bar>rounded 1\<bar> \<le> 2 powi 0" by (rule rounded_abs_le) simp_all
  moreover have "2 powi 0 \<le> rounded 1" by (rule rounded_ge) simp_all
  ultimately have "rounded 1 = 1" by simp
  then show ?thesis by (simp add: to_double_cases huge_def)
qed

lemma is_double_less_huge: "is_double x \<Longrightarrow> \<bar>x\<bar> < huge"
  unfolding is_double_def by (drule to_double_Num) simp

lemma one_less_huge: "1 < huge"
  by (simp add: huge_def)

lemma huge_double: "huge = 2 * 2 powi 1023"
  using two_powi_split [of 1 1023] by (simp only: huge_powi) simp

lemma binade_eq:
  assumes "- 1022 \<le> e" and "e \<le> 1023" and "2 powi e \<le> \<bar>x\<bar>" and "\<bar>x\<bar> < 2 powi (e + 1)"
  shows "binade \<bar>x\<bar> = e"
proof (rule antisym)
  show "binade \<bar>x\<bar> \<le> e"
  proof (rule ccontr)
    assume "\<not> binade \<bar>x\<bar> \<le> e"
    then have b: "e + 1 \<le> binade \<bar>x\<bar>" by simp
    with assms(1) have "- 1022 < binade \<bar>x\<bar>" by simp
    then have "2 powi (binade \<bar>x\<bar>) \<le> \<bar>x\<bar>" by (simp add: binade_lower)
    moreover from b have "(2::real) powi (e + 1) \<le> 2 powi (binade \<bar>x\<bar>)"
      by (simp only: two_powi_le_iff)
    ultimately show False using assms(4) by linarith
  qed
  show "e \<le> binade \<bar>x\<bar>"
  proof (rule ccontr)
    assume "\<not> e \<le> binade \<bar>x\<bar>"
    then have b: "binade \<bar>x\<bar> + 1 \<le> e" by simp
    from assms(2) have "(2::real) powi (e + 1) \<le> 2 powi 1024" by (simp only: two_powi_le_iff)
    with assms(4) have "\<bar>x\<bar> < 2 ^ 1024" by simp
    then have "\<bar>x\<bar> < 2 powi (binade \<bar>x\<bar> + 1)" by (rule binade_upper)
    moreover from b have "(2::real) powi (binade \<bar>x\<bar> + 1) \<le> 2 powi e"
      by (simp only: two_powi_le_iff)
    ultimately show False using assms(3) by linarith
  qed
qed

lemma rounded_eval:
  assumes "- 1022 \<le> e" and "e \<le> 1023" and "2 powi e \<le> \<bar>x\<bar>" and "\<bar>x\<bar> < 2 powi (e + 1)"
  shows "rounded x = of_int (round_half_even (x / 2 powi (e - 52))) * 2 powi (e - 52)"
  unfolding rounded_def Let_def binade_eq [OF assms] ..

lemma rounded_two_powi:
  assumes "- 1074 \<le> k"
  shows "rounded (2 powi k) = 2 powi k"
proof -
  have "\<bar>rounded (2 powi k)\<bar> \<le> 2 powi k" using assms by (intro rounded_abs_le) simp_all
  moreover have "2 powi k \<le> rounded (2 powi k)" using assms by (intro rounded_ge) simp_all
  ultimately show ?thesis by simp
qed

lemma binade_top:
  assumes "2 powi 1023 \<le> \<bar>x\<bar>"
  shows "binade \<bar>x\<bar> = 1023"
proof (rule ccontr)
  assume "binade \<bar>x\<bar> \<noteq> 1023"
  with binade_range(2) [of "\<bar>x\<bar>"] have b: "binade \<bar>x\<bar> < 1023" by simp
  then have "\<bar>x\<bar> < 2 powi (binade \<bar>x\<bar> + 1)"
    using binade_from_upper [of 2045 "- 1022" "\<bar>x\<bar>"] by (simp add: binade_def)
  moreover from b have "binade \<bar>x\<bar> + 1 \<le> 1023" by simp
  then have "(2::real) powi (binade \<bar>x\<bar> + 1) \<le> 2 powi 1023" by (simp only: two_powi_le_iff)
  ultimately show False using assms by linarith
qed

lemma max_double_ge: "2 powi 1023 \<le> max_double"
  by (simp add: max_double_def)

lemma rounded_finite_le_max_double:
  assumes "0 \<le> x" and "rounded x < huge"
  shows "rounded x \<le> max_double"
proof (cases "x \<le> max_double")
  case True
  with assms(1) have "\<bar>x\<bar> \<le> max_double" by simp
  from rounded_le_max_double [OF this] show ?thesis by simp
next
  case False
  with max_double_ge have "2 powi 1023 \<le> \<bar>x\<bar>" by linarith
  then have b: "binade \<bar>x\<bar> = 1023" by (rule binade_top)
  define m where "m = round_half_even (x / 2 powi 971)"
  have r: "rounded x = of_int m * 2 powi 971" by (simp add: rounded_def Let_def b m_def)
  have h: "huge = of_int (2 ^ 53) * 2 powi 971"
    using two_powi_split [of 53 971] by (simp only: huge_powi) simp
  from assms(2) have "of_int m * 2 powi 971 < of_int (2 ^ 53) * (2::real) powi 971"
    by (simp only: r h)
  then have "(of_int m :: real) < of_int (2 ^ 53)" by (simp only: mult_less_cancel_right_pos ulp_pos)
  then have "m \<le> 2 ^ 53 - 1" by linarith
  then have "(of_int m :: real) \<le> of_int (2 ^ 53 - 1)" by linarith
  then have "of_int m * 2 powi 971 \<le> of_int (2 ^ 53 - 1) * (2::real) powi 971"
    by (intro mult_right_mono) simp_all
  then show ?thesis by (simp add: r max_double_def)
qed

lemma to_double_two_powi:
  assumes "- 1074 \<le> k" and "k \<le> 1023"
  shows "to_double (2 powi k) = Num (2 powi k)"
proof -
  from assms(2) have "(2::real) powi k \<le> 2 powi 1023" by (simp only: two_powi_le_iff)
  moreover have "(2::real) powi 1023 < huge" using huge_double by simp
  moreover have "(0::real) < 2 powi k" by (rule ulp_pos)
  ultimately have "\<not> huge \<le> 2 powi k" and "\<not> 2 powi k \<le> - huge" by linarith+
  then show ?thesis by (simp only: to_double_cases rounded_two_powi [OF assms(1)] if_False)
qed

lemma to_double_eval:
  assumes "- 1022 \<le> e" and "e \<le> 1023" and "2 powi e \<le> \<bar>x\<bar>" and "\<bar>x\<bar> < 2 powi (e + 1)"
    and "of_int (round_half_even (x / 2 powi (e - 52))) * 2 powi (e - 52) = y"
    and "\<bar>y\<bar> < huge"
  shows "to_double x = Num y"
proof -
  from assms(6) have "\<not> huge \<le> y" and "\<not> y \<le> - huge" by linarith+
  then show ?thesis
    by (simp only: to_double_cases rounded_eval [OF assms(1-4)] assms(5) if_False)
qed

lemma half_doubles:
  "to_double 1 = Num 1" "to_double 2 = Num 2" "to_double (1 / 2) = Num (1 / 2)"
  "to_double (1 / 4) = Num (1 / 4)"
  using to_double_two_powi [of 0] to_double_two_powi [of 1] to_double_two_powi [of "- 1"]
    to_double_two_powi [of "- 2"]
  by simp_all

lemma is_double_examples: "is_double (1 / 4)" "is_double 1" "is_double (1 / 2)"
  by (simp_all add: is_double_def half_doubles)

lemma some_doubles:
  "to_double 3 = Num 3"
  "to_double (3 / 2) = Num (3 / 2)"
  "to_double (2 / 3) = Num (6004799503160661 / 9007199254740992)"
  "to_double (6004799503160661 / 9007199254740992) = Num (6004799503160661 / 9007199254740992)"
  "to_double (6004799503160661 / 18014398509481984) = Num (6004799503160661 / 18014398509481984)"
  "to_double (12009599006321323 / 18014398509481984) = Num (3002399751580331 / 4503599627370496)"
  by (rule to_double_eval [of 1], simp_all add: round_half_even_def huge_def)
    (rule to_double_eval [of 0], simp_all add: round_half_even_def huge_def,
     rule to_double_eval [of "- 1"], simp_all add: round_half_even_def huge_def,
     rule to_double_eval [of "- 1"], simp_all add: round_half_even_def huge_def,
     rule to_double_eval [of "- 2"], simp_all add: round_half_even_def huge_def,
     rule to_double_eval [of "- 1"], simp_all add: round_half_even_def huge_def)

section \<open>Python floats: operations\<close>

lemma rounded_even:
  assumes "1 \<le> n"
  shows "\<exists>j. rounded (of_int (2 * n)) = of_int (2 * j)"
proof -
  define x :: real where "x = of_int (2 * n)"
  define e where "e = binade \<bar>x\<bar>"
  define u :: real where "u = 2 powi (e - 52)"
  have u: "0 < u" by (simp add: u_def)
  have r: "rounded x = of_int (round_half_even (x / u)) * u"
    by (simp add: rounded_def Let_def u_def e_def)
  show ?thesis
  proof (cases "e \<le> 52")
    case True
    have "(2::real) powi (52 - e) * u = 1"
      using two_powi_split [of "52 - e" "e - 52"] by (simp add: u_def)
    moreover have "(2::real) powi (52 - e) = 2 ^ nat (52 - e)"
      using True by (simp add: power_int_def)
    ultimately have i: "(2::real) ^ nat (52 - e) * u = 1" by simp
    then have "x / u = x * 2 ^ nat (52 - e)" using u by (simp add: field_simps)
    also have "\<dots> = of_int (2 * n * 2 ^ nat (52 - e))" by (simp add: x_def)
    finally have "round_half_even (x / u) = 2 * n * 2 ^ nat (52 - e)"
      by (simp only: round_half_even_of_int)
    then have "rounded x = of_int (2 * n * 2 ^ nat (52 - e)) * u" by (simp only: r)
    also have "\<dots> = x * (2 ^ nat (52 - e) * u)" by (simp add: x_def)
    finally have "rounded x = x" by (simp only: i mult_1_right)
    then show ?thesis unfolding x_def by blast
  next
    case False
    have "(2::real) powi (e - 52) = 2 powi 1 * 2 powi (e - 53)"
      using two_powi_split [of 1 "e - 53"] by simp
    moreover have "(2::real) powi (e - 53) = 2 ^ nat (e - 53)"
      using False by (simp add: power_int_def)
    ultimately have "u = of_int (2 * 2 ^ nat (e - 53))" by (simp add: u_def)
    then have "rounded x = of_int (2 * (round_half_even (x / u) * 2 ^ nat (e - 53)))"
      by (simp add: r)
    then show ?thesis unfolding x_def by blast
  qed
qed

lemma float_of_int_cases:
  "float_of_int k = Inl OverflowError \<or> (\<exists>w. float_of_int k = Inr w \<and> to_double (of_int k) = Num w)"
  by (cases "to_double (of_int k)") (simp_all add: float_of_int_def)

lemma float_of_int_even:
  assumes "0 \<le> n" and "float_of_int (2 * n) = Inr w"
  shows "0 \<le> w" and "\<not> is_odd_integer w" and "w = 0 \<longleftrightarrow> n = 0"
proof -
  from assms(2) have "to_double (of_int (2 * n)) = Num w"
    by (cases "to_double (of_int (2 * n))") (simp_all add: float_of_int_def)
  then have w: "w = rounded (of_int (2 * n))" by (simp add: to_double_Num)
  have *: "0 \<le> w \<and> \<not> is_odd_integer w \<and> (w = 0 \<longleftrightarrow> n = 0)"
  proof (cases "n = 0")
    case True
    then show ?thesis by (simp add: w rounded_0 is_odd_integer_def)
  next
    case False
    with assms(1) have n: "1 \<le> n" by simp
    from rounded_even [OF n] obtain j where j: "w = of_int (2 * j)" unfolding w by blast
    have "2 powi 1 \<le> (of_int (2 * n) :: real)" using n by simp
    from rounded_ge [OF this] have "2 \<le> w" by (simp add: w)
    moreover have "\<not> is_odd_integer w" unfolding j is_odd_integer_def by (simp only: floor_of_int) simp
    ultimately show ?thesis using False by simp
  qed
  from * show "0 \<le> w" and "\<not> is_odd_integer w" and "w = 0 \<longleftrightarrow> n = 0" by simp_all
qed

lemma one_le_max_double: "1 \<le> max_double"
  by (simp add: max_double_def)

lemma float_pow_even:
  assumes "c_pow_range pw" and "0 \<le> n" and "a \<noteq> NaN"
  shows "float_pow pw a (2 * n) = Inl OverflowError
     \<or> (\<exists>r. float_pow pw a (2 * n) = Inr r \<and> nonneg r
          \<and> (r = PosInf \<longrightarrow> a = PosInf \<or> a = NegInf)
          \<and> (\<forall>y. r = Num y \<longrightarrow> y \<le> max_double))"
proof -
  from float_of_int_cases [of "2 * n"] show ?thesis
  proof
    assume "float_of_int (2 * n) = Inl OverflowError"
    then show ?thesis by (simp add: float_pow_def bind_err_def)
  next
    assume "\<exists>w. float_of_int (2 * n) = Inr w \<and> to_double (of_int (2 * n)) = Num w"
    then obtain w where w: "float_of_int (2 * n) = Inr w" by blast
    note e = float_of_int_even [OF assms(2) w]
    show ?thesis
    proof (cases "w = 0")
      case True
      then show ?thesis using one_le_max_double by (simp add: float_pow_def bind_err_def w nonneg_iff)
    next
      case False
      with e(1) have p: "0 < w" by simp
      show ?thesis
      proof (cases a)
        case (Num x)
        show ?thesis
        proof (cases "x = 0 \<or> \<bar>x\<bar> = 1")
          case True
          then show ?thesis using p e(2) one_le_max_double
            by (auto simp: float_pow_def bind_err_def w nonneg_iff Num max_double_def)
        next
          case False
          then have x: "0 < \<bar>x\<bar>" by simp
          show ?thesis
          proof (cases "pw \<bar>x\<bar> w")
            case None
            then show ?thesis using False p by (simp add: float_pow_def bind_err_def w Num)
          next
            case (Some r)
            from assms(1) x Some have "0 \<le> r \<and> r \<le> max_double"
              unfolding c_pow_range_def by blast
            then show ?thesis using False p e(2) Some
              by (simp add: float_pow_def bind_err_def w Num nonneg_iff)
          qed
        qed
      next
        case PosInf
        then show ?thesis using p by (simp add: float_pow_def bind_err_def w nonneg_iff)
      next
        case NegInf
        then show ?thesis using p e(2) by (simp add: float_pow_def bind_err_def w nonneg_iff)
      next
        case NaN
        with assms(3) show ?thesis by simp
      qed
    qed
  qed
qed

lemma big_to_double:
  assumes "- 1074 \<le> k" and "k \<le> 1023"
    and "to_double x = PosInf \<or> (\<exists>y. to_double x = Num y \<and> 2 powi k < y)"
  shows "2 powi k < x"
  using assms(3)
proof
  assume "to_double x = PosInf"
  then have "2 powi 1023 < x" by (rule to_double_PosInf)
  moreover from assms(2) have "(2::real) powi k \<le> 2 powi 1023" by (simp only: two_powi_le_iff)
  ultimately show ?thesis by linarith
next
  assume "\<exists>y. to_double x = Num y \<and> 2 powi k < y"
  then obtain y where "to_double x = Num y" and y: "2 powi k < y" by blast
  then have "y = rounded x" by (simp add: to_double_Num)
  with y have "2 powi k < rounded x" by simp
  from big_rounded [OF assms(1) this] show ?thesis .
qed

lemma float_mul_Num: "float_mul (Num x) (Num y) = to_double (x * y)"
  by (simp add: float_mul_def)

lemma float_mul_PosInf_pos: "0 < g \<Longrightarrow> float_mul PosInf (Num g) = PosInf"
  by (simp add: float_mul_def sign_of_def inf_of_sign_def)

lemma float_mul_pos_PosInf: "0 < g \<Longrightarrow> float_mul (Num g) PosInf = PosInf"
  by (simp add: float_mul_def sign_of_def inf_of_sign_def)

lemma float_mul_nonneg_pos:
  assumes "nonneg a" and "0 < g"
  shows "nonneg (float_mul a (Num g))"
    and "float_mul a (Num g) = PosInf \<or> (\<exists>y. float_mul a (Num g) = Num y \<and> 2 powi k < y) \<Longrightarrow>
         - 1074 \<le> k \<Longrightarrow> k \<le> 1023 \<Longrightarrow> a = PosInf \<or> (\<exists>x. a = Num x \<and> 2 powi k < x * g)"
proof -
  from assms(1) consider "a = PosInf" | x where "a = Num x" "0 \<le> x"
    unfolding nonneg_iff by blast
  then show "nonneg (float_mul a (Num g))"
  proof cases
    case 1
    then show ?thesis using assms(2) by (simp add: float_mul_PosInf_pos nonneg_iff)
  next
    case 2
    then show ?thesis using assms(2) by (simp add: float_mul_Num to_double_nonneg)
  qed
  assume b: "float_mul a (Num g) = PosInf \<or> (\<exists>y. float_mul a (Num g) = Num y \<and> 2 powi k < y)"
    and k: "- 1074 \<le> k" "k \<le> 1023"
  from assms(1) consider "a = PosInf" | x where "a = Num x" "0 \<le> x"
    unfolding nonneg_iff by blast
  then show "a = PosInf \<or> (\<exists>x. a = Num x \<and> 2 powi k < x * g)"
  proof cases
    case 1
    then show ?thesis by simp
  next
    case 2
    with b have "to_double (x * g) = PosInf \<or> (\<exists>y. to_double (x * g) = Num y \<and> 2 powi k < y)"
      by (simp add: float_mul_Num)
    from big_to_double [OF k this] 2 show ?thesis by simp
  qed
qed

lemma float_sub_one:
  assumes "nonneg x"
  shows "float_sub (Num 1) x \<noteq> NaN" and "float_sub (Num 1) x \<noteq> PosInf"
    and "float_sub (Num 1) x = NegInf \<Longrightarrow> x = PosInf \<or> (\<exists>y. x = Num y \<and> 2 powi 1023 < y)"
proof -
  from assms consider "x = PosInf" | y where "x = Num y" "0 \<le> y"
    unfolding nonneg_iff by blast
  then have "float_sub (Num 1) x \<noteq> NaN \<and> float_sub (Num 1) x \<noteq> PosInf
     \<and> (float_sub (Num 1) x = NegInf \<longrightarrow> x = PosInf \<or> (\<exists>y. x = Num y \<and> 2 powi 1023 < y))"
  proof cases
    case 1
    then show ?thesis by (simp add: float_sub_def)
  next
    case 2
    have f: "float_sub (Num 1) x = to_double (1 - y)" by (simp add: float_sub_def 2)
    have "to_double (1 - y) \<noteq> NaN" by (simp add: to_double_cases)
    moreover have "to_double (1 - y) \<noteq> PosInf"
    proof
      assume "to_double (1 - y) = PosInf"
      then have "2 powi 1023 < 1 - y" by (rule to_double_PosInf)
      moreover have "(2::real) powi 0 \<le> 2 powi 1023" by (simp only: two_powi_le_iff)
      ultimately show False using 2(2) by simp
    qed
    moreover have "2 powi 1023 < y" if "to_double (1 - y) = NegInf"
    proof -
      from that have "1 - y < - (2 powi 1023)" by (rule to_double_NegInf)
      then show ?thesis by linarith
    qed
    ultimately show ?thesis unfolding f using 2(1) by blast
  qed
  then show "float_sub (Num 1) x \<noteq> NaN" and "float_sub (Num 1) x \<noteq> PosInf"
    and "float_sub (Num 1) x = NegInf \<Longrightarrow> x = PosInf \<or> (\<exists>y. x = Num y \<and> 2 powi 1023 < y)"
    by simp_all
qed

lemma rounded_pow_range: "c_pow_range rounded_pow"
  unfolding c_pow_range_def
proof (intro allI impI)
  fix x y r :: real
  assume x: "0 < x" and s: "rounded_pow x y = Some r"
  define z where "z = (if 0 \<le> y then x ^ nat \<lfloor>y\<rfloor> else 1 / x ^ nat \<lfloor>- y\<rfloor>)"
  have z: "0 \<le> z" using x by (simp add: z_def)
  from s have "to_double z = Num r"
    by (cases "to_double z") (simp_all add: rounded_pow_def z_def)
  then have r: "r = rounded z" "\<bar>r\<bar> < huge" by (simp_all add: to_double_Num)
  from rounded_nonneg [OF z] rounded_finite_le_max_double [OF z] r
  show "0 \<le> r \<and> r \<le> max_double" by simp
qed

section \<open>Gradient descent on quadratics: the reference value\<close>

lemma float_div_mu_L:
  assumes "0 \<le> mu" and "mu \<le> L" and "0 < L"
  shows "\<exists>q. float_div (Num mu) (Num L) = Inr (Num q) \<and> 0 \<le> q \<and> q \<le> 1"
proof -
  have "0 \<le> mu / L" and "\<bar>mu / L\<bar> \<le> 2 powi 0" using assms by simp_all
  then have "0 \<le> rounded (mu / L)" and "\<bar>rounded (mu / L)\<bar> \<le> 2 powi 0"
    by (simp_all only: rounded_nonneg rounded_abs_le)
  then have r: "0 \<le> rounded (mu / L)" "rounded (mu / L) \<le> 1" by simp_all
  with one_less_huge have "to_double (mu / L) = Num (rounded (mu / L))"
    by (simp add: to_double_cases)
  with r assms(3) show ?thesis by (simp add: float_div_def)
qed

lemma float_of_odd:
  assumes "0 \<le> n"
  shows "to_double (of_int (2 * n + 1)) = PosInf \<and> float_of_int (2 * n + 1) = Inl OverflowError
    \<or> (\<exists>k. to_double (of_int (2 * n + 1)) = Num k \<and> float_of_int (2 * n + 1) = Inr k \<and> 1 \<le> k)"
proof -
  have "2 powi 0 \<le> (of_int (2 * n + 1) :: real)" using assms by simp
  from rounded_ge [OF this] have r: "1 \<le> rounded (of_int (2 * n + 1))" by simp
  then have "\<not> rounded (of_int (2 * n + 1)) \<le> - huge" using one_less_huge by linarith
  with r show ?thesis by (simp add: float_of_int_def to_double_cases)
qed

lemma to_double_zero_iff:
  assumes "0 \<le> x"
  shows "to_double x = Num 0 \<longleftrightarrow> x \<le> 2 powi (- 1075)"
proof -
  have "to_double x = Num 0 \<longleftrightarrow> rounded x = 0"
    using one_less_huge by (auto simp: to_double_cases)
  then show ?thesis by (simp only: rounded_zero_iff [OF assms])
qed

lemma product_zero_iff:
  assumes "0 < L" and "0 < gamma" and "1 \<le> k"
  shows "float_mul (float_mul (Num L) (Num gamma)) (Num k) = Num 0 \<longleftrightarrow> L * gamma \<le> 2 powi (- 1075)"
    and "nonneg (float_mul (float_mul (Num L) (Num gamma)) (Num k))"
proof -
  have k: "0 < k" using assms(3) by simp
  have c: "nonneg (float_mul (Num L) (Num gamma))"
    using assms by (simp add: float_mul_Num to_double_nonneg)
  from float_mul_nonneg_pos(1) [OF c k] show "nonneg (float_mul (float_mul (Num L) (Num gamma)) (Num k))" .
  have lg: "0 \<le> L * gamma" using assms by simp
  from c consider "float_mul (Num L) (Num gamma) = PosInf"
    | c' where "float_mul (Num L) (Num gamma) = Num c'" "0 \<le> c'"
    unfolding nonneg_iff by blast
  then show "float_mul (float_mul (Num L) (Num gamma)) (Num k) = Num 0 \<longleftrightarrow> L * gamma \<le> 2 powi (- 1075)"
  proof cases
    case 1
    then have "to_double (L * gamma) \<noteq> Num 0" by (simp add: float_mul_Num)
    then have a: "\<not> L * gamma \<le> 2 powi (- 1075)" using to_double_zero_iff [OF lg] by blast
    have b: "float_mul (float_mul (Num L) (Num gamma)) (Num k) = PosInf"
      using 1 k by (simp add: float_mul_PosInf_pos)
    show ?thesis unfolding b using a by blast
  next
    case 2
    then have t: "to_double (L * gamma) = Num c'" by (simp add: float_mul_Num)
    then have r: "c' = rounded (L * gamma)" by (simp add: to_double_Num)
    have "c' * k \<le> 2 powi (- 1075) \<longleftrightarrow> c' = 0"
    proof
      assume s: "c' * k \<le> 2 powi (- 1075)"
      show "c' = 0"
      proof (rule ccontr)
        assume "c' \<noteq> 0"
        with 2(2) have "0 < rounded (L * gamma)" by (simp add: r)
        then have "2 powi (- 1074) \<le> c'" unfolding r by (rule rounded_pos_ge)
        moreover have "c' * 1 \<le> c' * k" using 2(2) assms(3) by (intro mult_left_mono) simp_all
        moreover have "(2::real) powi (- 1075) < 2 powi (- 1074)"
          by (intro power_int_strict_increasing) simp_all
        ultimately show False using s by linarith
      qed
    next
      assume "c' = 0"
      then show "c' * k \<le> 2 powi (- 1075)" by simp
    qed
    moreover have "0 \<le> c' * k" using 2(2) k by simp
    ultimately have "to_double (c' * k) = Num 0 \<longleftrightarrow> c' = 0"
      by (simp only: to_double_zero_iff)
    also have "\<dots> \<longleftrightarrow> to_double (L * gamma) = Num 0" by (simp add: t)
    also have "\<dots> \<longleftrightarrow> L * gamma \<le> 2 powi (- 1075)" by (simp only: to_double_zero_iff [OF lg])
    finally have "to_double (c' * k) = Num 0 \<longleftrightarrow> L * gamma \<le> 2 powi (- 1075)" .
    then show ?thesis unfolding 2(1) by (simp only: float_mul_Num)
  qed
qed

lemma float_div_one_nonneg:
  assumes "nonneg p" and "p \<noteq> Num 0"
  shows "\<exists>t. float_div (Num 1) p = Inr t \<and> nonneg t"
proof -
  from assms(1) consider "p = PosInf" | x where "p = Num x" "0 \<le> x"
    unfolding nonneg_iff by blast
  then show ?thesis
  proof cases
    case 1
    then show ?thesis by (simp add: float_div_def nonneg_iff)
  next
    case 2
    with assms(2) have "0 \<le> 1 / x" by simp
    from to_double_nonneg [OF this] 2 assms(2) show ?thesis by (simp add: float_div_def)
  qed
qed

lemma chain_is_projection:
  assumes "nonneg t" and "q \<le> 1"
  shows "(if float_lt t (Num q) then Num q else if float_lt (Num 1) t then Num 1 else t)
      = proj_interval (Num q) (Num 1) t"
    and "\<exists>a. proj_interval (Num q) (Num 1) t = Num a \<and> q \<le> a \<and> a \<le> 1"
  using assms unfolding nonneg_iff
  by (auto simp: float_lt_def float_le_def proj_interval_def Let_def)

lemma gdq_alpha_floats:
  assumes "0 \<le> mu" and "mu \<le> L" and "0 < L" and "0 < gamma" and "0 \<le> n"
  shows "\<exists>q. float_div (Num mu) (Num L) = Inr (Num q) \<and> 0 \<le> q \<and> q \<le> 1
      \<and> gdq_alpha (Num mu) (Num L) (Num gamma) n =
          bind_err (float_of_int (2 * n + 1)) (\<lambda>k.
          bind_err (float_div (Num 1) (float_mul (float_mul (Num L) (Num gamma)) (Num k))) (\<lambda>t.
            Inr (proj_interval (Num q) (Num 1) t)))
      \<and> (\<forall>alpha. gdq_alpha (Num mu) (Num L) (Num gamma) n = Inr alpha \<longrightarrow>
            (\<exists>a. alpha = Num a \<and> q \<le> a \<and> a \<le> 1))"
    and "gdq_alpha (Num mu) (Num L) (Num gamma) n = Inl OverflowError
      \<longleftrightarrow> to_double (of_int (2 * n + 1)) = PosInf"
    and "gdq_alpha (Num mu) (Num L) (Num gamma) n = Inl ZeroDivisionError
      \<longleftrightarrow> to_double (of_int (2 * n + 1)) \<noteq> PosInf \<and> L * gamma \<le> 2 powi (- 1075)"
    and "gdq_alpha (Num mu) (Num L) (Num gamma) n = Inl OverflowError
      \<or> gdq_alpha (Num mu) (Num L) (Num gamma) n = Inl ZeroDivisionError
      \<or> (\<exists>a. gdq_alpha (Num mu) (Num L) (Num gamma) n = Inr (Num a) \<and> 0 \<le> a \<and> a \<le> 1)"
proof -
  from float_div_mu_L [OF assms(1-3)] obtain q where
    q: "float_div (Num mu) (Num L) = Inr (Num q)" "0 \<le> q" "q \<le> 1" by blast
  let ?R = "bind_err (float_of_int (2 * n + 1)) (\<lambda>k.
          bind_err (float_div (Num 1) (float_mul (float_mul (Num L) (Num gamma)) (Num k))) (\<lambda>t.
            Inr (proj_interval (Num q) (Num 1) t)))"
  let ?G = "gdq_alpha (Num mu) (Num L) (Num gamma) n"
  have *: "?G = ?R \<and> (\<forall>alpha. ?G = Inr alpha \<longrightarrow> (\<exists>a. alpha = Num a \<and> q \<le> a \<and> a \<le> 1))
     \<and> (?G = Inl OverflowError \<longleftrightarrow> to_double (of_int (2 * n + 1)) = PosInf)
     \<and> (?G = Inl ZeroDivisionError
          \<longleftrightarrow> to_double (of_int (2 * n + 1)) \<noteq> PosInf \<and> L * gamma \<le> 2 powi (- 1075))
     \<and> (?G = Inl OverflowError \<or> ?G = Inl ZeroDivisionError
          \<or> (\<exists>a. ?G = Inr (Num a) \<and> 0 \<le> a \<and> a \<le> 1))"
    using float_of_odd [OF assms(5)]
  proof (elim disjE conjE exE)
    assume "to_double (of_int (2 * n + 1)) = PosInf"
      and "float_of_int (2 * n + 1) = Inl OverflowError"
    then show ?thesis by (simp add: gdq_alpha_def bind_err_def)
  next
    fix k
    assume k: "to_double (of_int (2 * n + 1)) = Num k" "float_of_int (2 * n + 1) = Inr k" "1 \<le> k"
    let ?p = "float_mul (float_mul (Num L) (Num gamma)) (Num k)"
    note p = product_zero_iff [OF assms(3,4) k(3)]
    show ?thesis
    proof (cases "?p = Num 0")
      case True
      then have "?G = Inl ZeroDivisionError" "?R = Inl ZeroDivisionError"
        by (simp_all add: gdq_alpha_def bind_err_def k(2) float_div_def)
      with True p(1) k(1) show ?thesis by simp
    next
      case False
      from float_div_one_nonneg [OF p(2) False] obtain t where
        t: "float_div (Num 1) ?p = Inr t" "nonneg t" by blast
      note c = chain_is_projection [OF t(2) q(3)]
      have "?G = Inr (if float_lt t (Num q) then Num q else if float_lt (Num 1) t then Num 1 else t)"
        by (simp add: gdq_alpha_def bind_err_def k(2) t(1) q(1))
      then have g: "?G = Inr (proj_interval (Num q) (Num 1) t)" by (simp only: c(1))
      have r: "?R = Inr (proj_interval (Num q) (Num 1) t)"
        by (simp add: bind_err_def k(2) t(1))
      from c(2) q(2) have "\<exists>a. proj_interval (Num q) (Num 1) t = Num a \<and> 0 \<le> a \<and> a \<le> 1"
        by fastforce
      with g r c(2) False p(1) k(1) show ?thesis by auto
    qed
  qed
  from q * show "\<exists>q. float_div (Num mu) (Num L) = Inr (Num q) \<and> 0 \<le> q \<and> q \<le> 1
      \<and> gdq_alpha (Num mu) (Num L) (Num gamma) n =
          bind_err (float_of_int (2 * n + 1)) (\<lambda>k.
          bind_err (float_div (Num 1) (float_mul (float_mul (Num L) (Num gamma)) (Num k))) (\<lambda>t.
            Inr (proj_interval (Num q) (Num 1) t)))
      \<and> (\<forall>alpha. gdq_alpha (Num mu) (Num L) (Num gamma) n = Inr alpha \<longrightarrow>
            (\<exists>a. alpha = Num a \<and> q \<le> a \<and> a \<le> 1))"
    by blast
  from * show "?G = Inl OverflowError \<longleftrightarrow> to_double (of_int (2 * n + 1)) = PosInf"
    and "?G = Inl ZeroDivisionError
      \<longleftrightarrow> to_double (of_int (2 * n + 1)) \<noteq> PosInf \<and> L * gamma \<le> 2 powi (- 1075)"
    by blast+
  from * show "?G = Inl OverflowError \<or> ?G = Inl ZeroDivisionError
      \<or> (\<exists>a. ?G = Inr (Num a) \<and> 0 \<le> a \<and> a \<le> 1)"
    by blast
qed

lemma half_less:
  assumes "2 powi 1023 < x * g" and "0 < g" and "g < huge"
  shows "2 powi (- 1) < x"
proof (rule ccontr)
  assume "\<not> 2 powi (- 1) < x"
  then have "x \<le> 1 / 2" by simp
  then have "x * g \<le> 1 / 2 * g" using assms(2) by (intro mult_right_mono) simp_all
  with assms(1,3) huge_double show False by linarith
qed

lemma np_max_nonneg:
  assumes "nonneg a" and "nonneg b"
  shows "nonneg (np_max a b)" and "np_max a b = PosInf \<Longrightarrow> a = PosInf \<or> b = PosInf"
  using assms unfolding nonneg_iff by (auto simp: np_max_def float_lt_def split: if_splits)

lemma float_mul_nonneg:
  assumes "0 \<le> h" and "nonneg m" and "m = PosInf \<Longrightarrow> 0 < h"
  shows "nonneg (float_mul (Num h) m)"
proof -
  from assms(2) consider "m = PosInf" | y where "m = Num y" "0 \<le> y"
    unfolding nonneg_iff by blast
  then show ?thesis
  proof cases
    case 1
    with assms(3) show ?thesis by (simp add: float_mul_pos_PosInf nonneg_iff)
  next
    case 2
    with assms(1) show ?thesis by (simp add: float_mul_Num to_double_nonneg)
  qed
qed

lemma float_mul_bounded:
  assumes "0 \<le> a" and "a \<le> 1" and "0 \<le> y" and "y \<le> max_double"
  shows "\<exists>z. float_mul (Num a) (Num y) = Num z \<and> 0 \<le> z"
proof -
  have "0 \<le> a * y" using assms by simp
  moreover have "a * y \<le> 1 * y" using assms by (intro mult_right_mono) simp_all
  ultimately have "0 \<le> rounded (a * y)" and "\<bar>a * y\<bar> \<le> max_double"
    using assms(4) by (simp_all add: rounded_nonneg)
  moreover from this(2) have "\<bar>rounded (a * y)\<bar> \<le> max_double" by (rule rounded_le_max_double)
  ultimately show ?thesis using max_double_less_huge
    by (simp add: float_mul_Num to_double_cases)
qed

lemma half_L:
  assumes "0 < L" and "L < huge"
  shows "\<exists>h. float_mul (Num (1 / 2)) (Num L) = Num h \<and> 0 \<le> h \<and> (2 powi (- 1) < L \<longrightarrow> 0 < h)"
proof -
  have "\<bar>1 / 2 * L\<bar> \<le> 2 powi 1023" using assms huge_double by simp
  then have "\<bar>rounded (1 / 2 * L)\<bar> \<le> 2 powi 1023" by (rule rounded_abs_le) simp
  moreover have "(2::real) powi 1023 < huge" using huge_double by simp
  moreover have "0 \<le> rounded (1 / 2 * L)" using assms(1) by (intro rounded_nonneg) simp
  ultimately have t: "to_double (1 / 2 * L) = Num (rounded (1 / 2 * L))"
    by (simp add: to_double_cases)
  have "0 < rounded (1 / 2 * L)" if "2 powi (- 1) < L"
  proof -
    from that have "2 powi (- 2) \<le> 1 / 2 * L" by simp
    then have "2 powi (- 2) \<le> rounded (1 / 2 * L)" by (rule rounded_ge) simp
    then show ?thesis by simp
  qed
  with t \<open>0 \<le> rounded (1 / 2 * L)\<close> show ?thesis by (simp add: float_mul_Num)
qed

text \<open>The base of a power in line 123 is infinite only for a large product.\<close>

lemma base_infinite:
  assumes "0 \<le> x" and "0 < g" and "g < huge" and "0 \<le> a"
  shows "float_sub (Num 1) (float_mul (float_mul (Num a) (Num x)) (Num g)) \<noteq> NaN"
    and "float_sub (Num 1) (float_mul (float_mul (Num a) (Num x)) (Num g)) \<noteq> PosInf"
    and "float_sub (Num 1) (float_mul (float_mul (Num a) (Num x)) (Num g)) = NegInf \<Longrightarrow> 2 powi (- 1) < a * x"
proof -
  have c: "nonneg (float_mul (Num a) (Num x))"
    using assms(1,4) by (simp add: float_mul_Num to_double_nonneg)
  note x = float_mul_nonneg_pos [OF c assms(2)]
  note s = float_sub_one [OF x(1)]
  from s(1) show "float_sub (Num 1) (float_mul (float_mul (Num a) (Num x)) (Num g)) \<noteq> NaN" .
  from s(2) show "float_sub (Num 1) (float_mul (float_mul (Num a) (Num x)) (Num g)) \<noteq> PosInf" .
  assume "float_sub (Num 1) (float_mul (float_mul (Num a) (Num x)) (Num g)) = NegInf"
  from s(3) [OF this] have "float_mul (Num a) (Num x) = PosInf
      \<or> (\<exists>y. float_mul (Num a) (Num x) = Num y \<and> 2 powi 1023 < y * g)"
    by (intro x(2)) simp_all
  then have "to_double (a * x) = PosInf \<or> (\<exists>y. to_double (a * x) = Num y \<and> 2 powi (- 1) < y)"
    unfolding float_mul_Num using half_less [OF _ assms(2,3)] by blast
  then show "2 powi (- 1) < a * x" by (intro big_to_double) simp_all
qed

lemma gdq_tau_floats:
  assumes "is_double L" and "is_double gamma"
    and "0 \<le> mu" and "mu \<le> L" and "0 < L" and "0 < gamma" and "0 \<le> n"
    and "c_pow_range pw"
  shows "gdq_theoretical_tau pw (Num mu) (Num L) (Num gamma) n = Inl OverflowError
    \<or> gdq_theoretical_tau pw (Num mu) (Num L) (Num gamma) n = Inl ZeroDivisionError
        \<and> gdq_alpha (Num mu) (Num L) (Num gamma) n = Inl ZeroDivisionError
    \<or> (\<exists>v. gdq_theoretical_tau pw (Num mu) (Num L) (Num gamma) n = Inr v \<and> nonneg v)"
proof -
  let ?T = "gdq_theoretical_tau pw (Num mu) (Num L) (Num gamma) n"
  let ?G = "gdq_alpha (Num mu) (Num L) (Num gamma) n"
  have L: "L < huge" "0 \<le> L" using is_double_less_huge [OF assms(1)] assms(5) by simp_all
  have g: "gamma < huge" using is_double_less_huge [OF assms(2)] by simp
  from gdq_alpha_floats(4) [OF assms(3-7)] consider
    "?G = Inl OverflowError" | "?G = Inl ZeroDivisionError"
    | a where "?G = Inr (Num a)" "0 \<le> a" "a \<le> 1"
    by blast
  then show ?thesis
  proof cases
    case 1
    then show ?thesis by (simp add: gdq_theoretical_tau_def bind_err_def)
  next
    case 2
    then show ?thesis by (simp add: gdq_theoretical_tau_def bind_err_def)
  next
    case 3
    let ?A = "float_sub (Num 1) (float_mul (float_mul (Num a) (Num L)) (Num gamma))"
    let ?B = "float_sub (Num 1) (float_mul (Num L) (Num gamma))"
    note A = base_infinite [OF L(2) assms(6) g 3(2)]
    have "float_mul (Num 1) (Num L) = Num L" using assms(1) by (simp add: float_mul_Num is_double_def)
    with base_infinite [OF L(2) assms(6) g, of 1]
    have B: "?B \<noteq> NaN" "?B \<noteq> PosInf" "?B = NegInf \<Longrightarrow> 2 powi (- 1) < L" by simp_all
    have "a * L \<le> 1 * L" using 3(3) L(2) by (intro mult_right_mono)
    then have aL: "a * L \<le> L" by simp
    from float_pow_even [OF assms(8,7) A(1)] show ?thesis
    proof (elim disjE exE conjE)
      assume "float_pow pw ?A (2 * n) = Inl OverflowError"
      then show ?thesis by (simp add: gdq_theoretical_tau_def bind_err_def 3(1))
    next
      fix r1
      assume r1: "float_pow pw ?A (2 * n) = Inr r1" "nonneg r1"
        "r1 = PosInf \<longrightarrow> ?A = PosInf \<or> ?A = NegInf" "\<forall>y. r1 = Num y \<longrightarrow> y \<le> max_double"
      have e1: "nonneg (float_mul (Num a) r1)"
        and e1': "float_mul (Num a) r1 = PosInf \<Longrightarrow> 2 powi (- 1) < L"
      proof -
        from r1(2) consider "r1 = PosInf" | y where "r1 = Num y" "0 \<le> y"
          unfolding nonneg_iff by blast
        then have "nonneg (float_mul (Num a) r1) \<and> (float_mul (Num a) r1 = PosInf \<longrightarrow> 2 powi (- 1) < L)"
        proof cases
          case 1
          with r1(3) A(2) have "?A = NegInf" by simp
          from A(3) [OF this] have h: "2 powi (- 1) < a * L" .
          then have "a \<noteq> 0" by auto
          with 3(2) have "0 < a" by simp
          with 1 h aL show ?thesis by (simp add: float_mul_pos_PosInf nonneg_iff)
        next
          case 2
          with r1(4) have "y \<le> max_double" by simp
          from float_mul_bounded [OF 3(2,3) 2(2) this] 2(1) show ?thesis by (auto simp: nonneg_iff)
        qed
        then show "nonneg (float_mul (Num a) r1)"
          and "float_mul (Num a) r1 = PosInf \<Longrightarrow> 2 powi (- 1) < L" by simp_all
      qed
      from float_pow_even [OF assms(8,7) B(1)] show ?thesis
      proof (elim disjE exE conjE)
        assume "float_pow pw ?B (2 * n) = Inl OverflowError"
        then show ?thesis by (simp add: gdq_theoretical_tau_def bind_err_def 3(1) r1(1))
      next
        fix r2
        assume r2: "float_pow pw ?B (2 * n) = Inr r2" "nonneg r2"
          "r2 = PosInf \<longrightarrow> ?B = PosInf \<or> ?B = NegInf"
        let ?m = "np_max (float_mul (Num a) r1) r2"
        note m = np_max_nonneg [OF e1 r2(2)]
        have big: "2 powi (- 1) < L" if "?m = PosInf"
          using m(2) [OF that] e1' r2(3) B(2,3) by blast
        from half_L [OF assms(5) L(1)] obtain h where
          h: "float_mul (Num (1 / 2)) (Num L) = Num h" "0 \<le> h" "2 powi (- 1) < L \<longrightarrow> 0 < h"
          by blast
        have "nonneg (float_mul (Num h) ?m)"
          using h(2) m(1) big h(3) by (intro float_mul_nonneg) blast+
        moreover have "?T = Inr (float_mul (Num h) ?m)"
          by (simp add: gdq_theoretical_tau_def bind_err_def 3(1) r1(1) r2(1) h(1))
        ultimately show ?thesis by blast
      qed
    qed
  qed
qed

lemma float_of_int_small: "float_of_int 3 = Inr 3" "float_of_int 2 = Inr 2" "float_of_int 1 = Inr 1"
  by (simp_all add: float_of_int_def some_doubles half_doubles)

lemma demo_gdq_alpha:
  "gdq_alpha (Num (1 / 4)) (Num 1) (Num (1 / 2)) 1
     = Inr (Num (6004799503160661 / 9007199254740992))"
  by (simp add: gdq_alpha_def bind_err_def float_of_int_small float_mul_Num float_div_def float_lt_def
      some_doubles half_doubles)

lemma some_roundings:
  "to_double (9014404268289633301131946069561 / 20282409603651670423947251286016)
     = Num (4003199668773775 / 9007199254740992)"
  "to_double (24038411382105686801418688465275 / 81129638414606681695789005144064)
     = Num (5337599558365033 / 18014398509481984)"
  "to_double (5337599558365033 / 36028797018963968) = Num (5337599558365033 / 36028797018963968)"
  by (rule to_double_eval [of "- 2"], simp_all add: round_half_even_def huge_def)
    (rule to_double_eval [of "- 2"], simp_all add: round_half_even_def huge_def,
     rule to_double_eval [of "- 3"], simp_all add: round_half_even_def huge_def)

lemma demo_gdq_theoretical_tau:
  "gdq_theoretical_tau rounded_pow (Num (1 / 4)) (Num 1) (Num (1 / 2)) 1
     = Inr (Num (5337599558365033 / 36028797018963968))"
  by (simp add: gdq_theoretical_tau_def demo_gdq_alpha bind_err_def float_of_int_small float_mul_Num
      float_sub_def float_pow_def rounded_pow_def np_max_def float_lt_def some_doubles half_doubles
      some_roundings power2_eq_square)

lemma wc_gdq_steps_conforms:
  "conforms (wc_gradient_descent_quadratics_steps E pw mu L gamma n)
     (wc_gradient_descent_quadratics_trace n)
     (\<lambda>(tau, th). gdq_theoretical_tau pw (Num mu) (Num L) (Num gamma) n = Inr th)
     (\<lambda>e pre. gdq_theoretical_tau pw (Num mu) (Num L) (Num gamma) n = Inl e
        \<and> pre = wc_gradient_descent_quadratics_trace n)"
  unfolding wc_gradient_descent_quadratics_steps_def wc_gradient_descent_quadratics_trace_def
    append_Cons append_Nil
  apply (rule conforms_api_bnd)+
  apply (rule conforms_bnd1 [OF distance_condition_conforms])
  apply (rule conforms_bnd [where P = "\<lambda>_. True"])
   apply (rule conforms_loop [where I = "\<lambda>_. True" and bevs = "\<lambda>_. [OracleCall]"])
    apply simp
   apply (intro conforms_api_bnd conforms_alg_bnd conforms_alg)
  apply (intro conforms_api_bnd conforms_alg_bnd conforms_lift_bnd conforms_ret; simp)
  done

text \<open>
  Claim C10, amended: for finite floats \<open>0 \<le> mu \<le> L\<close>, \<open>L > 0\<close>, \<open>gamma > 0\<close> and an int
  \<open>n \<ge> 0\<close>, lines 115--121 of \<open>wc_gradient_descent_quadratics\<close> raise \<open>OverflowError\<close>
  exactly when \<open>2 * n + 1\<close> is too large for a float, raise \<open>ZeroDivisionError\<close>
  exactly when, this not being so, \<open>L * gamma \<le> 2 ^ -1075\<close> (the product rounds to
  \<open>0.0\<close>), and otherwise compute \<open>alpha\<close> as the projection of the float
  \<open>t = 1 / (L * gamma * (2 * n + 1))\<close> onto the interval \<open>[mu / L, 1]\<close>, where the float
  \<open>mu / L\<close> lies in \<open>[0, 1]\<close>. Line 123 then raises \<open>OverflowError\<close> or yields a
  theoretical value that is not negative (it may be \<open>inf\<close>), and every returning
  run has that value as its second component. The C library's \<open>pow\<close> is any one
  that returns non-negative floats at a positive base.
\<close>

theorem gdq_alpha_is_projection:
  assumes "is_double mu" and "is_double L" and "is_double gamma"
    and "0 \<le> mu" and "mu \<le> L" and "0 < L" and "0 < gamma" and "0 \<le> n"
    and "c_pow_range pw"
  shows "\<exists>q. float_div (Num mu) (Num L) = Inr (Num q) \<and> 0 \<le> q \<and> q \<le> 1
    \<and> gdq_alpha (Num mu) (Num L) (Num gamma) n =
         bind_err (float_of_int (2 * n + 1)) (\<lambda>k.
         bind_err (float_div (Num 1) (float_mul (float_mul (Num L) (Num gamma)) (Num k))) (\<lambda>t.
           Inr (proj_interval (Num q) (Num 1) t)))
    \<and> (gdq_alpha (Num mu) (Num L) (Num gamma) n = Inl OverflowError
         \<longleftrightarrow> to_double (of_int (2 * n + 1)) = PosInf)
    \<and> (gdq_alpha (Num mu) (Num L) (Num gamma) n = Inl ZeroDivisionError
         \<longleftrightarrow> to_double (of_int (2 * n + 1)) \<noteq> PosInf \<and> L * gamma \<le> 2 powi (- 1075))
    \<and> (gdq_alpha (Num mu) (Num L) (Num gamma) n = Inl OverflowError
         \<or> gdq_alpha (Num mu) (Num L) (Num gamma) n = Inl ZeroDivisionError
         \<or> (\<exists>a. gdq_alpha (Num mu) (Num L) (Num gamma) n = Inr (Num a) \<and> q \<le> a \<and> a \<le> 1))
    \<and> (gdq_theoretical_tau pw (Num mu) (Num L) (Num gamma) n = Inl OverflowError
         \<or> gdq_theoretical_tau pw (Num mu) (Num L) (Num gamma) n = Inl ZeroDivisionError
             \<and> gdq_alpha (Num mu) (Num L) (Num gamma) n = Inl ZeroDivisionError
         \<or> (\<exists>v. gdq_theoretical_tau pw (Num mu) (Num L) (Num gamma) n = Inr v \<and> nonneg v))
    \<and> (outcome (wc_gradient_descent_quadratics E pw mu L gamma n) = Inr (tau, th) \<longrightarrow>
         gdq_theoretical_tau pw (Num mu) (Num L) (Num gamma) n = Inr th \<and> nonneg th)"
proof -
  let ?G = "gdq_alpha (Num mu) (Num L) (Num gamma) n"
  let ?T = "gdq_theoretical_tau pw (Num mu) (Num L) (Num gamma) n"
  note a = gdq_alpha_floats [OF assms(4-8)]
  note t = gdq_tau_floats [OF assms(2,3) assms(4-8) assms(9)]
  from a(1) obtain q where q: "float_div (Num mu) (Num L) = Inr (Num q)" "0 \<le> q" "q \<le> 1"
    "?G = bind_err (float_of_int (2 * n + 1)) (\<lambda>k.
         bind_err (float_div (Num 1) (float_mul (float_mul (Num L) (Num gamma)) (Num k))) (\<lambda>t.
           Inr (proj_interval (Num q) (Num 1) t)))"
    "\<forall>alpha. ?G = Inr alpha \<longrightarrow> (\<exists>a. alpha = Num a \<and> q \<le> a \<and> a \<le> 1)"
    by blast
  have c: "?G = Inl OverflowError \<or> ?G = Inl ZeroDivisionError
      \<or> (\<exists>a. ?G = Inr (Num a) \<and> q \<le> a \<and> a \<le> 1)"
    using a(4) q(5) by blast
  have s: "?T = Inr th \<and> nonneg th"
    if "outcome (wc_gradient_descent_quadratics E pw mu L gamma n) = Inr (tau, th)"
  proof -
    have "?T = Inr th"
      using conforms_run(2) [OF wc_gdq_steps_conforms, of "PEP E" E pw mu L gamma n "(tau, th)"]
        that
      by (simp add: wc_gradient_descent_quadratics_def)
    with t show ?thesis by auto
  qed
  from q(1-4) a(2,3) c t s show ?thesis by blast
qed

lemma demo_wc_gradient_descent_quadratics:
  "outcome (wc_gradient_descent_quadratics (demo_engine t) rounded_pow (1 / 4) 1 (1 / 2) 1)
     = Inr (t, Num (5337599558365033 / 36028797018963968))"
  by (simp add: wc_gradient_descent_quadratics_def wc_gradient_descent_quadratics_steps_def
      demo_gdq_theoretical_tau run_simps)

theorem gdq_alpha_is_projection_witness:
  "is_double (1 / 4) \<and> is_double 1 \<and> is_double (1 / 2)
   \<and> (0::real) \<le> 1 / 4 \<and> (1 / 4 :: real) \<le> 1 \<and> (0::real) < 1 \<and> (0::real) < 1 / 2
   \<and> (0::int) \<le> 1 \<and> c_pow_range rounded_pow
   \<and> gdq_alpha (Num (1 / 4)) (Num 1) (Num (1 / 2)) 1
       = Inr (Num (6004799503160661 / 9007199254740992))
   \<and> float_div (Num 1) (float_mul (float_mul (Num 1) (Num (1 / 2))) (Num 3))
       = Inr (Num (6004799503160661 / 9007199254740992))
   \<and> proj_interval (Num (1 / 4)) (Num 1) (Num (6004799503160661 / 9007199254740992))
       = Num (6004799503160661 / 9007199254740992)
   \<and> gdq_theoretical_tau rounded_pow (Num (1 / 4)) (Num 1) (Num (1 / 2)) 1
       = Inr (Num (5337599558365033 / 36028797018963968))
   \<and> outcome (wc_gradient_descent_quadratics (demo_engine 0) rounded_pow (1 / 4) 1 (1 / 2) 1)
       = Inr (0, Num (5337599558365033 / 36028797018963968))
   \<and> nonneg (Num (5337599558365033 / 36028797018963968))"
proof -
  have t: "float_div (Num 1) (float_mul (float_mul (Num 1) (Num (1 / 2))) (Num 3))
       = Inr (Num (6004799503160661 / 9007199254740992))"
    by (simp add: float_mul_Num float_div_def some_doubles half_doubles)
  have p: "proj_interval (Num (1 / 4)) (Num 1) (Num (6004799503160661 / 9007199254740992))
       = Num (6004799503160661 / 9007199254740992)"
    by (simp add: proj_interval_def float_le_def)
  from gdq_alpha_is_projection [OF is_double_examples _ _ _ _ _ rounded_pow_range,
      of 1 "demo_engine 0" 0 "Num (5337599558365033 / 36028797018963968)"]
    demo_wc_gradient_descent_quadratics [of 0]
  have "nonneg (Num (5337599558365033 / 36028797018963968))" by auto
  with t p is_double_examples rounded_pow_range demo_gdq_alpha demo_gdq_theoretical_tau
    demo_wc_gradient_descent_quadratics [of 0]
  show ?thesis by simp
qed

text \<open>
  Claim C10, as stated, fails at \<open>mu = L = 0\<close> (with \<open>gamma = 1\<close>, \<open>n = 0\<close>): line 115
  divides by \<open>L * gamma * (2 * n + 1) = 0\<close>, so no \<open>alpha\<close> is computed and the call
  raises \<open>ZeroDivisionError\<close>.
\<close>

theorem gdq_alpha_raises_at_L_zero:
  "gdq_alpha (Num 0) (Num 0) (Num 1) 0 = Inl ZeroDivisionError \<and>
   outcome (wc_gradient_descent_quadratics (demo_engine 0) rounded_pow 0 0 1 0)
     = Inl (Raised ZeroDivisionError)"
  by (simp add: wc_gradient_descent_quadratics_def wc_gradient_descent_quadratics_steps_def
      gdq_theoretical_tau_def gdq_alpha_def bind_err_def float_of_int_small float_mul_Num
      to_double_0 float_div_def run_simps)

text \<open>
  With \<open>L > 0\<close> the same exception is raised when the product \<open>L * gamma\<close> underflows,
  as for \<open>L = gamma = 2 ^ -600\<close>.
\<close>

lemma gdq_alpha_underflow:
  "gdq_alpha (Num 0) (Num (2 powi (- 600))) (Num (2 powi (- 600))) 0 = Inl ZeroDivisionError"
proof -
  have "(2::real) powi (- 600) * 2 powi (- 600) = 2 powi (- 1200)"
    using two_powi_split [of "- 600" "- 600"] by simp
  moreover have "(2::real) powi (- 1200) \<le> 2 powi (- 1075)" by (simp only: two_powi_le_iff)
  ultimately have "(2::real) powi (- 600) * 2 powi (- 600) \<le> 2 powi (- 1075)" by simp
  moreover have "to_double (of_int (2 * 0 + 1)) \<noteq> PosInf" by (simp add: to_double_1)
  moreover have "(0::real) \<le> 2 powi (- 600)" "(0::real) < 2 powi (- 600)" by simp_all
  ultimately show ?thesis
    using gdq_alpha_floats(3) [of 0 "2 powi (- 600)" "2 powi (- 600)" 0] by blast
qed

text \<open>
  \<open>OverflowError\<close> is raised by line 115 when \<open>2 * n + 1\<close> does not fit a float, as for
  \<open>n = 2 ^ 1024\<close>, and by line 123 when a power overflows, as for \<open>mu = L = 1\<close>,
  \<open>gamma = 2 ^ 600\<close> and \<open>n = 1\<close>, where \<open>alpha = 1\<close> and the power is \<open>(1 - 2 ^ 600) ^ 2\<close>.
\<close>

lemma gdq_alpha_int_too_large:
  "gdq_alpha (Num 0) (Num 1) (Num 1) (2 ^ 1024) = Inl OverflowError"
proof -
  have "2 powi 1024 \<le> (of_int (2 * 2 ^ 1024 + 1) :: real)" by simp
  then have "2 powi 1024 \<le> rounded (of_int (2 * 2 ^ 1024 + 1))" by (rule rounded_ge) simp
  then have "to_double (of_int (2 * 2 ^ 1024 + 1)) = PosInf"
    by (simp only: to_double_cases huge_powi if_True)
  then show ?thesis
    using gdq_alpha_floats(2) [of 0 1 1 "2 ^ 1024"] by simp
qed

lemma gdq_theoretical_tau_overflow:
  "gdq_theoretical_tau rounded_pow (Num 1) (Num 1) (Num (2 powi 600)) 1 = Inl OverflowError"
proof -
  define G :: real where "G = 2 powi 600"
  have "to_double G = Num G" unfolding G_def by (rule to_double_two_powi) simp_all
  moreover have "0 < G" "1 < G" by (simp_all add: G_def)
  ultimately have G: "to_double G = Num G" "0 < G" "1 < G" by blast+
  have "to_double (G * 3) = Num (G * 3)"
    by (rule to_double_eval [of 601]) (simp_all add: G_def round_half_even_def huge_def)
  then have t: "float_div (Num 1) (float_mul (float_mul (Num 1) (Num G)) (Num 3))
      = Inr (to_double (1 / (G * 3)))"
    using G by (simp add: float_div_def float_mul_Num)
  have "\<bar>1 / (G * 3)\<bar> \<le> 2 powi (- 1)" using G(3) by (simp add: field_simps)
  then have "\<bar>rounded (1 / (G * 3))\<bar> \<le> 2 powi (- 1)" by (rule rounded_abs_le) simp
  then have "\<bar>rounded (1 / (G * 3))\<bar> \<le> 1 / 2" by simp
  then have "rounded (1 / (G * 3)) < 1" and "\<not> huge \<le> rounded (1 / (G * 3))"
    using one_less_huge by linarith+
  then have "float_lt (to_double (1 / (G * 3))) (Num 1)"
    by (simp add: to_double_cases float_lt_def)
  moreover have "float_div (Num 1) (Num 1) = Inr (Num 1)"
    by (simp add: float_div_def to_double_1)
  ultimately have a: "gdq_alpha (Num 1) (Num 1) (Num G) 1 = Inr (Num 1)"
    by (simp add: gdq_alpha_def bind_err_def float_of_int_small t)
  have "to_double (1 - G) = Num (- G)"
    by (rule to_double_eval [of 599]) (simp_all add: G_def round_half_even_def huge_def)
  then have b: "float_sub (Num 1) (float_mul (float_mul (Num 1) (Num 1)) (Num G)) = Num (- G)"
    by (simp add: float_sub_def float_mul_Num to_double_1 G(1))
  have "2 powi 1024 \<le> G ^ 2" by (simp add: G_def)
  then have "2 powi 1024 \<le> rounded (G ^ 2)" by (rule rounded_ge) simp
  then have "to_double (G ^ 2) = PosInf" by (simp only: to_double_cases huge_powi if_True)
  then have "rounded_pow G 2 = None" by (simp add: rounded_pow_def)
  then have "float_pow rounded_pow (Num (- G)) (2 * 1) = Inl OverflowError"
    using G(2,3) by (simp add: float_pow_def bind_err_def float_of_int_small)
  then have "gdq_theoretical_tau rounded_pow (Num 1) (Num 1) (Num G) 1 = Inl OverflowError"
    by (simp add: gdq_theoretical_tau_def bind_err_def a b)
  then show ?thesis by (simp only: G_def)
qed

section \<open>The order of the calls\<close>

lemma conforms_bnd0:
  "conforms m [] P R \<Longrightarrow> (\<And>a. P a \<Longrightarrow> conforms (f a) evs Q R) \<Longrightarrow> conforms (bnd m f) evs Q R"
  using conforms_bnd [of m "[]" P R f evs Q] by simp

lemma conforms_var_bnd:
  "(v = None \<Longrightarrow> R NameError []) \<Longrightarrow> (\<And>a. v = Some a \<Longrightarrow> conforms (f a) evs Q R)
     \<Longrightarrow> conforms (bnd (var v) f) evs Q R"
  by (cases v) (simp_all add: var_def bnd_def ret_def raise_def conforms_def)

lemma conforms_lift: "(\<And>e. r = Inl e \<Longrightarrow> R e []) \<Longrightarrow> (\<And>a. r = Inr a \<Longrightarrow> Q a) \<Longrightarrow> conforms (lift r) [] Q R"
  by (cases r) (simp_all add: lift_def ret_def raise_def conforms_def)

lemma conforms_if:
  "(c \<Longrightarrow> conforms m1 evs Q R) \<Longrightarrow> (\<not> c \<Longrightarrow> conforms m2 evs Q R) \<Longrightarrow> conforms (if c then m1 else m2) evs Q R"
  by simp

lemma conforms_case_prod:
  "(\<And>a b. p = (a, b) \<Longrightarrow> conforms (f a b) evs Q R) \<Longrightarrow> conforms (case p of (a, b) \<Rightarrow> f a b) evs Q R"
  by (cases p) simp

lemmas conforms_steps = conforms_api_bnd conforms_alg_bnd conforms_lift_bnd conforms_var_bnd
  conforms_api conforms_alg conforms_lift conforms_ret conforms_case_prod conforms_if

lemma wc_gd_emits:
  "conforms (wc_gd_steps E L gamma n) (wc_gd_trace n) (\<lambda>_. True) (\<lambda>_ _. True)"
  unfolding wc_gd_steps_def wc_gd_trace_def append_Cons append_Nil
  apply (rule conforms_api_bnd)+
  apply (rule conforms_bnd1 [OF distance_condition_conforms])
  apply (rule conforms_bnd [where P = "\<lambda>_. True"])
   apply (rule conforms_loop [where I = "\<lambda>_. True"])
    apply simp
   apply (intro conforms_steps)
  apply (intro conforms_steps; simp)
  done

lemma wc_past_extragradient_emits:
  "conforms (wc_past_extragradient_steps E n gamma L) (wc_past_extragradient_trace n) (\<lambda>_. True) (\<lambda>_ _. True)"
  unfolding wc_past_extragradient_steps_def wc_past_extragradient_trace_def append_Cons append_Nil
  apply (intro conforms_steps)
  apply (rule conforms_bnd1 [OF distance_condition_conforms])
  apply (intro conforms_steps)
  apply (rule conforms_bnd [where P = "\<lambda>_. True"])
   apply (rule conforms_loop [where I = "\<lambda>_. True"])
    apply simp
   apply (intro conforms_steps; simp)
  apply (intro conforms_steps; simp)
  done


lemma wc_gradient_descent_quadratics_emits:
  "conforms (wc_gradient_descent_quadratics_steps E pw mu L gamma n)
     (wc_gradient_descent_quadratics_trace n) (\<lambda>_. True) (\<lambda>_ _. True)"
  unfolding wc_gradient_descent_quadratics_steps_def wc_gradient_descent_quadratics_trace_def
    append_Cons append_Nil
  apply (intro conforms_steps)
  apply (rule conforms_bnd1 [OF distance_condition_conforms])
  apply (rule conforms_bnd [where P = "\<lambda>_. True"])
   apply (rule conforms_loop [where I = "\<lambda>_. True"])
    apply simp
   apply (intro conforms_steps)
  apply (intro conforms_steps; simp)
  done

lemma wc_alternate_projections_emits:
  "conforms (wc_alternate_projections_steps E n) (wc_alternate_projections_trace n)
     (\<lambda>_. True) (\<lambda>_ _. True)"
  unfolding wc_alternate_projections_steps_def wc_alternate_projections_trace_def
    append_Cons append_Nil
  apply (intro conforms_steps)
  apply (rule conforms_bnd [where P = "\<lambda>_. True"])
   apply (rule conforms_loop [where I = "\<lambda>_. True"])
    apply simp
   apply (intro conforms_steps; simp)
  apply (intro conforms_steps)
  apply (rule conforms_bnd1 [OF distance_condition_conforms])
  apply (intro conforms_steps; simp)
  done

lemma wc_no_lips2_emits:
  "conforms (wc_no_lips2_steps E L gamma n) (wc_no_lips2_trace n) (\<lambda>_. True) (\<lambda>_ _. True)"
  unfolding wc_no_lips2_steps_def wc_no_lips2_trace_def append_Cons append_Nil
  apply (intro conforms_steps)
  apply (rule conforms_bnd [where P = "\<lambda>_. True"])
   apply (rule conforms_loop [where I = "\<lambda>_. True"])
    apply simp
   apply (intro conforms_steps; simp)
  apply (intro conforms_steps; simp)
  done

lemma wc_accelerated_proximal_gradient_emits:
  "conforms (wc_accelerated_proximal_gradient_steps E mu L n)
     (wc_accelerated_proximal_gradient_trace n) (\<lambda>_. True) (\<lambda>_ _. True)"
  unfolding wc_accelerated_proximal_gradient_steps_def wc_accelerated_proximal_gradient_trace_def
    append_Cons append_Nil
  apply (intro conforms_steps)
  apply (rule conforms_bnd1 [OF distance_condition_conforms])
  apply (rule conforms_bnd [where P = "\<lambda>_. True"])
   apply (rule conforms_loop [where I = "\<lambda>_. True"])
    apply simp
   apply (intro conforms_steps; simp)
  apply (intro conforms_steps; simp)
  done

lemma wc_heavyball_emits:
  "conforms (wc_heavyball_steps E mu L alpha beta n) (wc_heavyball_trace n)
     (\<lambda>_. True) (\<lambda>_ _. True)"
  unfolding wc_heavyball_steps_def wc_heavyball_trace_def append_Cons append_Nil
  apply (intro conforms_steps)
  apply (rule conforms_bnd1 [OF distance_condition_conforms])
  apply (intro conforms_steps)
      apply simp
     apply (rule conforms_bnd [where P = "\<lambda>_. True"])
   apply (rule conforms_loop [where I = "\<lambda>_. True"])
    apply simp
   apply (intro conforms_steps; simp)
  apply (intro conforms_steps; simp)
  done

lemma wc_adrs_declarations_emits:
  "conforms (wc_adrs_declarations E mu L)
     [DeclareFunction, DeclareFunction, StationaryPoint, OracleCall] (\<lambda>_. True) R"
  unfolding wc_adrs_declarations_def
  by (intro conforms_steps) simp

lemma wc_adrs_iteration_emits:
  "conforms (wc_adrs_iteration E func1 func2 alpha theta i st) [PrimitiveStep, PrimitiveStep]
     (\<lambda>_. True) (\<lambda>_ _. True)"
  unfolding wc_adrs_iteration_def
  apply (cases st)
  apply (simp only: prod.case)
  apply (intro conforms_steps TrueI)
  apply (rule conforms_bnd0 [where P = "\<lambda>_. True"])
   apply (intro conforms_steps TrueI)
  apply (intro conforms_steps TrueI)
  done

lemma wc_adrs_emits:
  "conforms (wc_adrs_steps E mu L alpha n) (wc_adrs_trace n) (\<lambda>_. True) (\<lambda>_ _. True)"
proof -
  have t: "wc_adrs_trace n = [DeclareFunction, DeclareFunction, StationaryPoint, OracleCall]
     @ (OracleCall # OracleCall # SetInitialPoint # OracleCall # SetInitialCondition #
        (concat (map (\<lambda>_. [PrimitiveStep, PrimitiveStep]) (range n))
         @ [OracleCall, SetPerformanceMetric, Solve]))"
    by (simp add: wc_adrs_trace_def)
  show ?thesis
    unfolding wc_adrs_steps_def t
    apply (rule conforms_bnd [OF wc_adrs_declarations_emits])
    apply (intro conforms_steps TrueI)
    apply (rule conforms_bnd1 [OF distance_condition_conforms])
    apply (rule conforms_bnd [where P = "\<lambda>_. True"])
     apply (rule conforms_loop [where I = "\<lambda>_. True"])
      apply simp
     apply (rule wc_adrs_iteration_emits)
    apply (intro conforms_steps; simp)
    done
qed

lemma precedes_Nil: "precedes a b []"
  by (simp add: precedes_def)

lemma precedes_Cons:
  "precedes a b (x # xs) = (if x = b then a \<notin> set (x # xs) else precedes a b xs)"
  by (simp add: precedes_def)

lemma precedes_append:
  "precedes a b (xs @ ys) = (if b \<in> set xs then precedes a b xs \<and> a \<notin> set ys else precedes a b ys)"
  by (induction xs) (auto simp: precedes_Cons precedes_def)

lemma precedes_absent: "b \<notin> set xs \<Longrightarrow> precedes a b xs"
  by (induction xs) (auto simp: precedes_def)

lemma precedes_prefix:
  assumes "prefix pre tr" and "precedes a b tr"
  shows "precedes a b pre"
proof -
  from assms(1) obtain ys where "tr = pre @ ys" by (auto simp: prefix_def)
  with assms(2) show ?thesis
    by (cases "b \<in> set pre") (simp_all add: precedes_append precedes_absent)
qed

lemma count_list_prefix:
  assumes "prefix pre tr"
  shows "count_list pre x \<le> count_list tr x"
proof -
  from assms obtain ys where "tr = pre @ ys" by (auto simp: prefix_def)
  then show ?thesis by simp
qed

lemma in_set_repeated: "e \<in> set (concat (map (\<lambda>_. body) xs)) \<longleftrightarrow> xs \<noteq> [] \<and> e \<in> set body"
  by (induction xs) auto


lemma terminal_solveI:
  assumes c: "conforms m T Q R"
    and p1: "precedes SetInitialCondition Solve T"
    and p2: "precedes SetPerformanceMetric Solve T"
    and k: "count_list T Solve = 1" and l: "last T = Solve"
  shows "terminal_solve (run s0 m)"
proof -
  have pre: "prefix (trace (run s0 m)) T" by (rule conforms_run(1) [OF c])
  have "count_list (trace (run s0 m)) Solve \<le> 1"
    using count_list_prefix [OF pre, of Solve] k by simp
  moreover have "count_list (trace (run s0 m)) Solve = 1 \<and> last (trace (run s0 m)) = Solve"
    if "outcome (run s0 m) = Inr v" for v
    using conforms_run(2) [OF c that] k l by simp
  ultimately show ?thesis
    unfolding terminal_solve_def
    using precedes_prefix [OF pre p1] precedes_prefix [OF pre p2]
    by (simp split: sum.splits)
qed

lemma ordered_runI:
  assumes c: "conforms m T Q R" and p: "precedes a b T"
  shows "precedes a b (trace (run s0 m))"
  by (rule precedes_prefix [OF conforms_run(1) [OF c] p])

lemmas trace_simps = precedes_Cons precedes_append precedes_Nil in_set_repeated
  count_list_0_iff image_constant_conv

lemma wc_gd_trace_props:
  "precedes SetInitialCondition Solve (wc_gd_trace n)"
  "precedes SetPerformanceMetric Solve (wc_gd_trace n)"
  "count_list (wc_gd_trace n) Solve = 1" "last (wc_gd_trace n) = Solve"
  "precedes SetInitialCondition SetPerformanceMetric (wc_gd_trace n)"
  by (simp_all add: wc_gd_trace_def trace_simps)

lemma wc_gradient_descent_quadratics_trace_props:
  "precedes SetInitialCondition Solve (wc_gradient_descent_quadratics_trace n)"
  "precedes SetPerformanceMetric Solve (wc_gradient_descent_quadratics_trace n)"
  "count_list (wc_gradient_descent_quadratics_trace n) Solve = 1"
  "last (wc_gradient_descent_quadratics_trace n) = Solve"
  "precedes SetInitialCondition SetPerformanceMetric (wc_gradient_descent_quadratics_trace n)"
  by (simp_all add: wc_gradient_descent_quadratics_trace_def trace_simps)

lemma wc_past_extragradient_trace_props:
  "precedes SetInitialCondition Solve (wc_past_extragradient_trace n)"
  "precedes SetPerformanceMetric Solve (wc_past_extragradient_trace n)"
  "count_list (wc_past_extragradient_trace n) Solve = 1"
  "last (wc_past_extragradient_trace n) = Solve"
  "precedes SetInitialCondition SetPerformanceMetric (wc_past_extragradient_trace n)"
  by (simp_all add: wc_past_extragradient_trace_def trace_simps)

lemma wc_alternate_projections_trace_props:
  "precedes SetInitialCondition Solve (wc_alternate_projections_trace n)"
  "precedes SetPerformanceMetric Solve (wc_alternate_projections_trace n)"
  "count_list (wc_alternate_projections_trace n) Solve = 1"
  "last (wc_alternate_projections_trace n) = Solve"
  "precedes SetPerformanceMetric SetInitialCondition (wc_alternate_projections_trace n)"
  "\<not> precedes SetInitialCondition SetPerformanceMetric (wc_alternate_projections_trace n)"
  by (simp_all add: wc_alternate_projections_trace_def trace_simps)

lemma wc_no_lips2_trace_props:
  "precedes SetInitialCondition Solve (wc_no_lips2_trace n)"
  "precedes SetPerformanceMetric Solve (wc_no_lips2_trace n)"
  "count_list (wc_no_lips2_trace n) Solve = 1"
  "last (wc_no_lips2_trace n) = Solve"
  "precedes SetPerformanceMetric SetInitialCondition (wc_no_lips2_trace n)"
  by (simp_all add: wc_no_lips2_trace_def trace_simps)

lemma wc_accelerated_proximal_gradient_trace_props:
  "precedes SetInitialCondition Solve (wc_accelerated_proximal_gradient_trace n)"
  "precedes SetPerformanceMetric Solve (wc_accelerated_proximal_gradient_trace n)"
  "count_list (wc_accelerated_proximal_gradient_trace n) Solve = 1"
  "last (wc_accelerated_proximal_gradient_trace n) = Solve"
  "precedes SetInitialCondition SetPerformanceMetric (wc_accelerated_proximal_gradient_trace n)"
  by (simp_all add: wc_accelerated_proximal_gradient_trace_def trace_simps)

lemma wc_heavyball_trace_props:
  "precedes SetInitialCondition Solve (wc_heavyball_trace n)"
  "precedes SetPerformanceMetric Solve (wc_heavyball_trace n)"
  "count_list (wc_heavyball_trace n) Solve = 1"
  "last (wc_heavyball_trace n) = Solve"
  "precedes SetInitialCondition SetPerformanceMetric (wc_heavyball_trace n)"
  by (simp_all add: wc_heavyball_trace_def trace_simps)

lemma wc_adrs_trace_props:
  "precedes SetInitialCondition Solve (wc_adrs_trace n)"
  "precedes SetPerformanceMetric Solve (wc_adrs_trace n)"
  "count_list (wc_adrs_trace n) Solve = 1"
  "last (wc_adrs_trace n) = Solve"
  "precedes SetInitialCondition SetPerformanceMetric (wc_adrs_trace n)"
  by (simp_all add: wc_adrs_trace_def trace_simps)

text \<open>
  Claim C5, amended: in every example script, every \<open>set_initial_condition\<close> and every
  \<open>set_performance_metric\<close> call precedes \<open>problem.solve\<close>, which is called at most once
  and, in every invocation that returns, exactly once as the last call. The initial
  condition is set before the performance metric in \<open>wc_gd\<close>,
  \<open>wc_gradient_descent_quadratics\<close>, \<open>wc_past_extragradient\<close>, \<open>wc_adrs\<close>,
  \<open>wc_accelerated_proximal_gradient\<close> and \<open>wc_heavyball\<close>; \<open>wc_alternate_projections\<close>
  and \<open>wc_no_lips2\<close> set the performance metric first.
\<close>

theorem scripts_solve_last:
  "terminal_solve (wc_gd E L gamma n)
   \<and> precedes SetInitialCondition SetPerformanceMetric (trace (wc_gd E L gamma n))
   \<and> terminal_solve (wc_gradient_descent_quadratics E pw mu L gamma n)
   \<and> precedes SetInitialCondition SetPerformanceMetric
       (trace (wc_gradient_descent_quadratics E pw mu L gamma n))
   \<and> terminal_solve (wc_past_extragradient E n gamma L)
   \<and> precedes SetInitialCondition SetPerformanceMetric (trace (wc_past_extragradient E n gamma L))
   \<and> terminal_solve (wc_adrs E mu L alpha n)
   \<and> precedes SetInitialCondition SetPerformanceMetric (trace (wc_adrs E mu L alpha n))
   \<and> terminal_solve (wc_accelerated_proximal_gradient E mu L n)
   \<and> precedes SetInitialCondition SetPerformanceMetric
       (trace (wc_accelerated_proximal_gradient E mu L n))
   \<and> terminal_solve (wc_heavyball E mu L alpha beta n)
   \<and> precedes SetInitialCondition SetPerformanceMetric (trace (wc_heavyball E mu L alpha beta n))
   \<and> terminal_solve (wc_alternate_projections E n)
   \<and> precedes SetPerformanceMetric SetInitialCondition (trace (wc_alternate_projections E n))
   \<and> terminal_solve (wc_no_lips2 E L gamma n)
   \<and> precedes SetPerformanceMetric SetInitialCondition (trace (wc_no_lips2 E L gamma n))"
  unfolding wc_gd_def wc_gradient_descent_quadratics_def wc_past_extragradient_def wc_adrs_def
    wc_accelerated_proximal_gradient_def wc_heavyball_def wc_alternate_projections_def
    wc_no_lips2_def
  by (intro conjI
      terminal_solveI [OF wc_gd_emits wc_gd_trace_props(1-4)]
      ordered_runI [OF wc_gd_emits wc_gd_trace_props(5)]
      terminal_solveI [OF wc_gradient_descent_quadratics_emits
        wc_gradient_descent_quadratics_trace_props(1-4)]
      ordered_runI [OF wc_gradient_descent_quadratics_emits
        wc_gradient_descent_quadratics_trace_props(5)]
      terminal_solveI [OF wc_past_extragradient_emits wc_past_extragradient_trace_props(1-4)]
      ordered_runI [OF wc_past_extragradient_emits wc_past_extragradient_trace_props(5)]
      terminal_solveI [OF wc_adrs_emits wc_adrs_trace_props(1-4)]
      ordered_runI [OF wc_adrs_emits wc_adrs_trace_props(5)]
      terminal_solveI [OF wc_accelerated_proximal_gradient_emits
        wc_accelerated_proximal_gradient_trace_props(1-4)]
      ordered_runI [OF wc_accelerated_proximal_gradient_emits
        wc_accelerated_proximal_gradient_trace_props(5)]
      terminal_solveI [OF wc_heavyball_emits wc_heavyball_trace_props(1-4)]
      ordered_runI [OF wc_heavyball_emits wc_heavyball_trace_props(5)]
      terminal_solveI [OF wc_alternate_projections_emits wc_alternate_projections_trace_props(1-4)]
      ordered_runI [OF wc_alternate_projections_emits wc_alternate_projections_trace_props(5)]
      terminal_solveI [OF wc_no_lips2_emits wc_no_lips2_trace_props(1-4)]
      ordered_runI [OF wc_no_lips2_emits wc_no_lips2_trace_props(5)])

lemma demo_wc_alternate_projections_n1:
  "outcome (wc_alternate_projections (demo_engine t) 1) = Inr (t, None)"
  by (simp add: wc_alternate_projections_def wc_alternate_projections_steps_def run_simps)

theorem scripts_solve_last_witness:
  "outcome (wc_alternate_projections (demo_engine 0) 1) = Inr (0, None)
   \<and> terminal_solve (wc_alternate_projections (demo_engine 0) 1)
   \<and> count_list (trace (wc_alternate_projections (demo_engine 0) 1)) Solve = 1
   \<and> last (trace (wc_alternate_projections (demo_engine 0) 1)) = Solve"
  using scripts_solve_last [where E = "demo_engine 0" and n = 1 and L = 1 and gamma = 1
      and mu = 0 and alpha = 1 and beta = 0]
    demo_wc_alternate_projections_n1 [of 0]
  by (simp add: terminal_solve_def)

lemma demo_wc_alternate_projections_n10:
  "outcome (wc_alternate_projections (demo_engine t) 10) = Inr (t, None)"
  by (simp add: wc_alternate_projections_def wc_alternate_projections_steps_def run_simps)

text \<open>
  Claim C5, as stated, fails: \<open>wc_alternate_projections(n=10)\<close> returns, and in its run
  \<open>set_performance_metric\<close> (line 107) is called before \<open>set_initial_condition\<close>
  (line 108).
\<close>

theorem wc_alternate_projections_sets_metric_first:
  "outcome (wc_alternate_projections (demo_engine 0) 10) = Inr (0, None) \<and>
   \<not> precedes SetInitialCondition SetPerformanceMetric
       (trace (wc_alternate_projections (demo_engine 0) 10))"
proof -
  have o: "outcome (wc_alternate_projections (demo_engine 0) 10) = Inr (0, None)"
    by (rule demo_wc_alternate_projections_n10)
  have "trace (wc_alternate_projections (demo_engine 0) 10) = wc_alternate_projections_trace 10"
    using conforms_run(2) [OF wc_alternate_projections_emits, of "PEP (demo_engine 0)"
        "demo_engine 0" 10 "(0, None)"] o
    by (simp add: wc_alternate_projections_def)
  with o wc_alternate_projections_trace_props(6) [of 10] show ?thesis by simp
qed

section \<open>Variables bound only by a loop, divisions by zero\<close>

lemma bnd_ret: "bnd (ret a) f = f a"
  by (simp add: bnd_def ret_def)

lemma range_empty: "n \<le> 0 \<Longrightarrow> range n = []"
  by (simp add: range_def)

lemma range_nonempty: "1 \<le> n \<Longrightarrow> range n \<noteq> []"
  by (simp add: range_def)


lemma conforms_loop_nonempty:
  assumes ne: "is \<noteq> []" and a0: "I a0"
    and body: "\<And>i a pre0. i \<in> set is \<Longrightarrow> I a \<Longrightarrow>
       conforms (body i a) (bevs i) (\<lambda>a'. I a' \<and> J a') (\<lambda>e pre. R e (pre0 @ pre))"
  shows "conforms (for_loop is body a0) (concat (map bevs is)) (\<lambda>a. I a \<and> J a) R"
proof -
  from ne obtain i js where is_eq: "is = i # js" by (cases "is") auto
  have first: "conforms (body i a0) (bevs i) (\<lambda>a'. I a' \<and> J a') R"
    using body [of i a0 "[]"] a0 by (simp add: is_eq)
  have rest: "conforms (for_loop js body a) (concat (map bevs js)) (\<lambda>a. I a \<and> J a)
      (\<lambda>e pre. R e (bevs i @ pre))" if "I a \<and> J a" for a
  proof (rule conforms_loop [where I = "\<lambda>a. I a \<and> J a", OF that])
    fix j a' pre0 assume "j \<in> set js" "I a' \<and> J a'"
    then show "conforms (body j a') (bevs j) (\<lambda>a. I a \<and> J a) (\<lambda>e pre. R e (bevs i @ pre0 @ pre))"
      using body [of j a' "bevs i @ pre0"] by (simp add: is_eq)
  qed
  show ?thesis using conforms_bnd [OF first rest] by (simp add: is_eq)
qed

lemma conforms_cases:
  assumes "conforms m T Q R"
  shows "(\<exists>x. outcome (run s0 m) = Inl (InEngine x))
     \<or> (\<exists>a. outcome (run s0 m) = Inr a \<and> Q a \<and> trace (run s0 m) = T)
     \<or> (\<exists>e. outcome (run s0 m) = Inl (Raised e) \<and> R e (trace (run s0 m)))"
proof (cases "outcome (run s0 m)")
  case (Inl f)
  then show ?thesis using conforms_run(3) [OF assms, of s0] by (cases f) auto
next
  case (Inr a)
  then show ?thesis using conforms_run(2) [OF assms, of s0 a] by auto
qed

lemma wc_past_extragradient_unbound:
  "conforms (wc_past_extragradient_steps E 0 gamma L) wc_past_extragradient_setup
     (\<lambda>_. False) (\<lambda>e pre. e = NameError \<and> pre = wc_past_extragradient_setup)"
  unfolding wc_past_extragradient_steps_def wc_past_extragradient_setup_def
  apply (simp only: range_empty [OF order_refl] for_loop.simps bnd_ret prod.case)
  apply (intro conforms_steps)
  apply (rule conforms_bnd1 [OF distance_condition_conforms])
  apply (intro conforms_steps; simp)
  done

lemma wc_past_extragradient_bound:
  assumes "1 \<le> n"
  shows "conforms (wc_past_extragradient_steps E n gamma L) (wc_past_extragradient_trace n)
     (\<lambda>(tau, th). th = None) (\<lambda>_ _. False)"
  unfolding wc_past_extragradient_steps_def wc_past_extragradient_trace_def append_Cons append_Nil
  apply (intro conforms_steps)
  apply (rule conforms_bnd1 [OF distance_condition_conforms])
  apply (intro conforms_steps)
  apply (rule conforms_bnd [where P = "\<lambda>a. True \<and> (case a of (x, xtilde, V, previous_x) \<Rightarrow> previous_x \<noteq> None)"])
   apply (rule conforms_loop_nonempty [where I = "\<lambda>_. True", OF range_nonempty [OF assms]])
    apply simp
   apply (intro conforms_steps; simp)
  apply (intro conforms_steps; simp)
  done

lemma demo_wc_past_extragradient_n0: "outcome (wc_past_extragradient (demo_engine t) 0 (1 / 4) 1) = Inl (Raised NameError)"
  by (simp add: wc_past_extragradient_def wc_past_extragradient_steps_def run_simps)

lemma demo_wc_past_extragradient_n1: "outcome (wc_past_extragradient (demo_engine t) 1 (1 / 4) 1) = Inr (t, None)"
  by (simp add: wc_past_extragradient_def wc_past_extragradient_steps_def run_simps)

text \<open>
  Claim C8: called with \<open>n = 0\<close>, \<open>wc_past_extragradient\<close> raises \<open>NameError\<close> when it
  builds the performance metric, after the calls before the loop and before any
  \<open>set_performance_metric\<close> or \<open>solve\<close> (unless an engine call has raised before); for
  every \<open>n \<ge> 1\<close> the script raises nothing itself: unless an engine call raises, it
  sets the metric, solves and returns the solver's value with \<open>None\<close>.
\<close>

theorem wc_past_extragradient_previous_x:
  "((\<exists>x. outcome (wc_past_extragradient E 0 gamma L) = Inl (InEngine x))
     \<or> (outcome (wc_past_extragradient E 0 gamma L) = Inl (Raised NameError)
        \<and> trace (wc_past_extragradient E 0 gamma L) = wc_past_extragradient_setup))
   \<and> (1 \<le> n \<longrightarrow>
       (\<exists>x. outcome (wc_past_extragradient E n gamma L) = Inl (InEngine x))
       \<or> (\<exists>tau. outcome (wc_past_extragradient E n gamma L) = Inr (tau, None)
          \<and> trace (wc_past_extragradient E n gamma L) = wc_past_extragradient_trace n))"
proof (intro conjI impI)
  show "(\<exists>x. outcome (wc_past_extragradient E 0 gamma L) = Inl (InEngine x))
     \<or> (outcome (wc_past_extragradient E 0 gamma L) = Inl (Raised NameError)
        \<and> trace (wc_past_extragradient E 0 gamma L) = wc_past_extragradient_setup)"
    using conforms_cases [OF wc_past_extragradient_unbound, of "PEP E" E gamma L]
    by (auto simp: wc_past_extragradient_def)
next
  assume "1 \<le> n"
  from conforms_cases [OF wc_past_extragradient_bound [OF this], of "PEP E" E gamma L]
  show "(\<exists>x. outcome (wc_past_extragradient E n gamma L) = Inl (InEngine x))
       \<or> (\<exists>tau. outcome (wc_past_extragradient E n gamma L) = Inr (tau, None)
          \<and> trace (wc_past_extragradient E n gamma L) = wc_past_extragradient_trace n)"
    by (auto simp: wc_past_extragradient_def)
qed

theorem wc_past_extragradient_previous_x_witness:
  "(1::int) \<le> 1
   \<and> outcome (wc_past_extragradient (demo_engine 0) 0 (1 / 4) 1) = Inl (Raised NameError)
   \<and> trace (wc_past_extragradient (demo_engine 0) 0 (1 / 4) 1) = wc_past_extragradient_setup
   \<and> outcome (wc_past_extragradient (demo_engine 0) 1 (1 / 4) 1) = Inr (0, None)
   \<and> trace (wc_past_extragradient (demo_engine 0) 1 (1 / 4) 1) = wc_past_extragradient_trace 1"
  using wc_past_extragradient_previous_x [of "demo_engine 0" "1 / 4" 1 1]
    demo_wc_past_extragradient_n0 [of 0] demo_wc_past_extragradient_n1 [of 0]
  by simp














section \<open>The engine of the specification: oracle calls\<close>

lemma kept_refl: "kept K s s"
  by (simp add: kept_def)

lemma kept_trans:
  assumes "kept K s s1" and "kept K' s1 s2" and "K \<subseteq> M" and "K' \<subseteq> M"
  shows "kept M s s2"
  unfolding kept_def
proof (intro conjI allI impI)
  show "frozen s2 = frozen s" using assms(1,2) by (simp add: kept_def)
  show "declared s2 = declared s" using assms(1,2) by (simp add: kept_def)
  fix k assume "k \<notin> M"
  then have "k \<notin> K" "k \<notin> K'" using assms(3,4) by blast+
  then show "recorded s2 k = recorded s k" using assms(1,2) by (simp add: kept_def)
qed

lemma kept_step: "kept K s s1 \<Longrightarrow> kept K s1 s2 \<Longrightarrow> kept K s s2"
  by (simp add: kept_def)

lemma kept_mono: "kept K s s' \<Longrightarrow> K \<subseteq> M \<Longrightarrow> kept M s s'"
  by (auto simp: kept_def)

lemma kept_make_point: "make_point c s = (g, s') \<Longrightarrow> kept {} s s'"
  by (auto simp: make_point_def kept_def)

lemma kept_new_generator: "new_generator s = (g, s') \<Longrightarrow> kept {} s s'"
  by (auto simp: new_generator_def make_point_def kept_def)

lemma kept_new_scalar: "new_scalar s = (v, s') \<Longrightarrow> kept {} s s'"
  by (auto simp: new_scalar_def kept_def)

lemma kept_record_triple: "kept {k} s (record_triple k t s)"
  by (simp add: record_triple_def kept_def)

lemma kept_add_points: "add_points g h s = (r, s') \<Longrightarrow> kept {} s s'"
  unfolding add_points_def by (rule kept_make_point)

lemma kept_sub_points: "sub_points g h s = (r, s') \<Longrightarrow> kept {} s s'"
  unfolding sub_points_def by (rule kept_make_point)

lemma kept_scale_point: "scale_point c g s = (r, s') \<Longrightarrow> kept {} s s'"
  unfolding scale_point_def by (rule kept_make_point)

lemma query_Leaf_cases:
  assumes "query (Leaf k) p s = (r, s')"
  obtains (hit) "cached s k p = Some r" "s' = s"
  | (miss) g s1 v s2 where "cached s k p = None" "new_generator s = (g, s1)"
      "new_scalar s1 = (v, s2)" "r = (g, v)" "s' = record_triple k (p, g, v) s2"
  using assms by (auto split: option.splits prod.splits)

lemma query_Sum_cases:
  assumes "query (Sum k f1 f2) p s = (r, s')"
  obtains (hit) "cached s k p = Some r" "s' = s"
  | (miss) g1 v1 s1 g2 v2 s2 g s3 where "cached s k p = None"
      "query f1 p s = ((g1, v1), s1)" "query f2 p s1 = ((g2, v2), s2)"
      "add_points g1 g2 s2 = (g, s3)" "r = (g, add_exprs v1 v2)"
      "s' = record_triple k (p, g, add_exprs v1 v2) s3"
  using assms by (auto split: option.splits prod.splits)

lemma query_Diff_cases:
  assumes "query (Diff k f1 f2) p s = (r, s')"
  obtains (hit) "cached s k p = Some r" "s' = s"
  | (miss) g1 v1 s1 g2 v2 s2 g s3 where "cached s k p = None"
      "query f1 p s = ((g1, v1), s1)" "query f2 p s1 = ((g2, v2), s2)"
      "sub_points g1 g2 s2 = (g, s3)" "r = (g, sub_exprs v1 v2)"
      "s' = record_triple k (p, g, sub_exprs v1 v2) s3"
  using assms by (auto split: option.splits prod.splits)

lemma query_Scaled_cases:
  assumes "query (Scaled k c f1) p s = (r, s')"
  obtains (hit) "cached s k p = Some r" "s' = s"
  | (miss) g1 v1 s1 g s2 where "cached s k p = None"
      "query f1 p s = ((g1, v1), s1)"
      "scale_point c g1 s1 = (g, s2)" "r = (g, scale_expr c v1)"
      "s' = record_triple k (p, g, scale_expr c v1) s2"
  using assms by (auto split: option.splits prod.splits)


lemma query_kept: "query f p s = (r, s') \<Longrightarrow> kept (set (fids f)) s s'"
proof (induction f arbitrary: s r s')
  case (Leaf k)
  from Leaf.prems show ?case
  proof (cases rule: query_Leaf_cases)
    case hit
    then show ?thesis by (simp add: kept_refl)
  next
    case (miss g s1 v s2)
    have "kept {} s s2"
      by (rule kept_trans [OF kept_new_generator [OF miss(2)] kept_new_scalar [OF miss(3)]]) simp_all
    from kept_trans [OF this kept_record_triple [where k = k and t = "(p, g, v)" and s = s2]] miss(5)
    show ?thesis by simp
  qed
next
  case (Sum k f1 f2)
  from Sum.prems show ?case
  proof (cases rule: query_Sum_cases)
    case hit
    then show ?thesis by (simp add: kept_refl)
  next
    case (miss g1 v1 s1 g2 v2 s2 g s3)
    let ?M = "set (fids (Sum k f1 f2))"
    have a: "kept ?M s s1" by (rule kept_mono [OF Sum.IH(1) [OF miss(2)]]) auto
    have b: "kept ?M s1 s2" by (rule kept_mono [OF Sum.IH(2) [OF miss(3)]]) auto
    have c: "kept ?M s2 s3" by (rule kept_mono [OF kept_add_points [OF miss(4)]]) auto
    have d: "kept ?M s3 s'" unfolding miss(6)
      by (rule kept_mono [OF kept_record_triple [where k = k and s = s3]]) auto
    show ?thesis
      by (rule kept_step [OF kept_step [OF kept_step [OF a b] c] d])
  qed
next
  case (Diff k f1 f2)
  from Diff.prems show ?case
  proof (cases rule: query_Diff_cases)
    case hit
    then show ?thesis by (simp add: kept_refl)
  next
    case (miss g1 v1 s1 g2 v2 s2 g s3)
    let ?M = "set (fids (Diff k f1 f2))"
    have a: "kept ?M s s1" by (rule kept_mono [OF Diff.IH(1) [OF miss(2)]]) auto
    have b: "kept ?M s1 s2" by (rule kept_mono [OF Diff.IH(2) [OF miss(3)]]) auto
    have c: "kept ?M s2 s3" by (rule kept_mono [OF kept_sub_points [OF miss(4)]]) auto
    have d: "kept ?M s3 s'" unfolding miss(6)
      by (rule kept_mono [OF kept_record_triple [where k = k and s = s3]]) auto
    show ?thesis
      by (rule kept_step [OF kept_step [OF kept_step [OF a b] c] d])
  qed
next
  case (Scaled k c f1)
  from Scaled.prems show ?case
  proof (cases rule: query_Scaled_cases)
    case hit
    then show ?thesis by (simp add: kept_refl)
  next
    case (miss g1 v1 s1 g s2)
    let ?M = "set (fids (Scaled k c f1))"
    have a: "kept ?M s s1" by (rule kept_mono [OF Scaled.IH [OF miss(2)]]) auto
    have b: "kept ?M s1 s2" by (rule kept_mono [OF kept_scale_point [OF miss(3)]]) auto
    have d: "kept ?M s2 s'" unfolding miss(5)
      by (rule kept_mono [OF kept_record_triple [where k = k and s = s2]]) auto
    show ?thesis
      by (rule kept_step [OF kept_step [OF a b] d])
  qed
qed

lemma find_snoc: "find P xs = None \<Longrightarrow> P y \<Longrightarrow> find P (xs @ [y]) = Some y"
  by (induction xs) (simp_all split: if_splits)

lemma cached_after_record:
  assumes "cached s k p = None"
  shows "cached (record_triple k (p, g, v) s) k p = Some (g, v)"
proof -
  from assms have "find (\<lambda>(x, g, v). pkey x = pkey p) (recorded s k) = None"
    by (simp add: cached_def)
  then have "find (\<lambda>(x, g, v). pkey x = pkey p) (recorded s k @ [(p, g, v)]) = Some (p, g, v)"
    by (intro find_snoc) simp_all
  then show ?thesis by (simp add: cached_def record_triple_def)
qed

lemma cached_kept: "kept K s s' \<Longrightarrow> k \<notin> K \<Longrightarrow> cached s' k p = cached s k p"
  by (simp add: kept_def cached_def)


lemma query_caches:
  assumes "fid f \<notin> part_ids f" and "query f p s = (r, s')"
  shows "cached s' (fid f) p = Some r"
proof (cases f)
  case (Leaf k)
  from assms(2) [unfolded Leaf] show ?thesis
  proof (cases rule: query_Leaf_cases)
    case hit
    then show ?thesis by (simp add: Leaf)
  next
    case (miss g s1 v s2)
    have "kept {} s s2"
      by (rule kept_step [OF kept_new_generator [OF miss(2)] kept_new_scalar [OF miss(3)]])
    from cached_kept [OF this, of k p] miss(1) have "cached s2 k p = None" by simp
    from cached_after_record [OF this] miss(4,5) show ?thesis by (simp add: Leaf)
  qed
next
  case (Sum k f1 f2)
  from assms(1) Sum have k: "k \<notin> set (fids f1)" "k \<notin> set (fids f2)" by simp_all
  from assms(2) [unfolded Sum] show ?thesis
  proof (cases rule: query_Sum_cases)
    case hit
    then show ?thesis by (simp add: Sum)
  next
    case (miss g1 v1 s1 g2 v2 s2 g s3)
    have "cached s3 k p = cached s k p"
      using cached_kept [OF query_kept [OF miss(2)] k(1), of p]
        cached_kept [OF query_kept [OF miss(3)] k(2), of p]
        cached_kept [OF kept_add_points [OF miss(4)], of k p]
      by simp
    with miss(1) have "cached s3 k p = None" by simp
    from cached_after_record [OF this] miss(5,6) show ?thesis by (simp add: Sum)
  qed
next
  case (Diff k f1 f2)
  from assms(1) Diff have k: "k \<notin> set (fids f1)" "k \<notin> set (fids f2)" by simp_all
  from assms(2) [unfolded Diff] show ?thesis
  proof (cases rule: query_Diff_cases)
    case hit
    then show ?thesis by (simp add: Diff)
  next
    case (miss g1 v1 s1 g2 v2 s2 g s3)
    have "cached s3 k p = cached s k p"
      using cached_kept [OF query_kept [OF miss(2)] k(1), of p]
        cached_kept [OF query_kept [OF miss(3)] k(2), of p]
        cached_kept [OF kept_sub_points [OF miss(4)], of k p]
      by simp
    with miss(1) have "cached s3 k p = None" by simp
    from cached_after_record [OF this] miss(5,6) show ?thesis by (simp add: Diff)
  qed
next
  case (Scaled k c f1)
  from assms(1) Scaled have k: "k \<notin> set (fids f1)" by simp
  from assms(2) [unfolded Scaled] show ?thesis
  proof (cases rule: query_Scaled_cases)
    case hit
    then show ?thesis by (simp add: Scaled)
  next
    case (miss g1 v1 s1 g s2)
    have "cached s2 k p = cached s k p"
      using cached_kept [OF query_kept [OF miss(2)] k, of p]
        cached_kept [OF kept_scale_point [OF miss(3)], of k p]
      by simp
    with miss(1) have "cached s2 k p = None" by simp
    from cached_after_record [OF this] miss(4,5) show ?thesis by (simp add: Scaled)
  qed
qed

lemma query_hit: "cached s (fid f) p = Some r \<Longrightarrow> query f p s = (r, s)"
  by (cases f) simp_all

lemma query_again:
  assumes "fid f \<notin> part_ids f" and "query f p s = (r, s')"
  shows "query f p s' = (r, s')"
  by (rule query_hit [OF query_caches [OF assms]])

lemma oracle_again:
  assumes "fid f \<notin> part_ids f" and "pep_oracle f p s = Inr (r, s')"
  shows "pep_oracle f p s' = Inr (r, s')"
proof -
  from assms(2) have nf: "\<not> frozen s" and q: "query f p s = (r, s')"
    by (simp_all add: pep_oracle_def split: if_splits)
  from query_kept [OF q] nf have "\<not> frozen s'" by (simp add: kept_def)
  with query_again [OF assms(1) q] show ?thesis by (simp add: pep_oracle_def)
qed

lemma adrs_declarations_record:
  assumes "wc_adrs_declarations (spec_engine admits policy solver) mu L
     (PEP (spec_engine admits policy solver), []) = (Inr (func1, func2, func, xs, fs), t, tr)"
  shows "\<exists>g v. recorded t (fid func1) = [(xs, g, v)] \<and> pep_oracle func1 xs t = Inr ((g, v), t)"
  using assms
  by (auto simp: wc_adrs_declarations_def run_simps split: if_splits)


text \<open>
  Claim C6: a second \<open>oracle\<close> call on a Function at the same point returns the pair of
  the first call and leaves the state as it was, so neither the recorded triples nor
  the interpolation constraints grow; so do \<open>gradient\<close> and \<open>value\<close>. In \<open>wc_adrs\<close>,
  after lines 95--102, \<open>func1\<close> holds exactly one triple, recorded at \<open>xs\<close> through
  \<open>(func1 + func2).stationary_point()\<close>, and \<open>func1.oracle(xs)\<close> returns it without
  changing the state.
\<close>

theorem oracle_idempotent:
  "(fid f \<notin> part_ids f \<longrightarrow> pep_oracle f p s = Inr (r, s') \<longrightarrow>
      pep_oracle f p s' = Inr (r, s')
      \<and> pep_gradient f p s' = Inr (fst r, s') \<and> pep_value f p s' = Inr (snd r, s'))
   \<and> (wc_adrs_declarations (spec_engine admits policy solver) mu L
         (PEP (spec_engine admits policy solver), []) = (Inr (func1, func2, func, xs, fs), t, tr)
       \<longrightarrow> (\<exists>g v. recorded t (fid func1) = [(xs, g, v)]
             \<and> pep_oracle func1 xs t = Inr ((g, v), t)))"
proof (intro conjI impI)
  assume a: "fid f \<notin> part_ids f" "pep_oracle f p s = Inr (r, s')"
  show o: "pep_oracle f p s' = Inr (r, s')" by (rule oracle_again [OF a])
  show "pep_gradient f p s' = Inr (fst r, s')"
    by (cases r) (simp add: pep_gradient_def o)
  show "pep_value f p s' = Inr (snd r, s')"
    by (cases r) (simp add: pep_value_def o)
next
  assume "wc_adrs_declarations (spec_engine admits policy solver) mu L
         (PEP (spec_engine admits policy solver), []) = (Inr (func1, func2, func, xs, fs), t, tr)"
  then show "\<exists>g v. recorded t (fid func1) = [(xs, g, v)]
             \<and> pep_oracle func1 xs t = Inr ((g, v), t)"
    by (rule adrs_declarations_record)
qed

lemma demo_adrs_declarations:
  "fst (wc_adrs_declarations (demo_engine 0) (1 / 10) 1 (PEP (demo_engine 0), []))
    = Inr (Leaf 0, Leaf 1, Sum 2 (Leaf 0) (Leaf 1),
        \<lparr>pkey = 0, coef = \<lambda>i. if i = 0 then 1 else 0\<rparr>,
        \<lparr>lin = \<lambda>i. (if i = 0 then 1 else 0) + (if i = 1 then 1 else 0),
          bil = \<lambda>_. 0, cst = 0\<rparr>)"
  by (simp add: wc_adrs_declarations_def run_simps add_exprs_def numeral_2_eq_2)

theorem oracle_idempotent_witness:
  "fid (Sum 2 (Leaf 0) (Leaf 1)) \<notin> part_ids (Sum 2 (Leaf 0) (Leaf 1))
   \<and> pep_oracle (Sum 2 (Leaf 0) (Leaf 1)) \<lparr>pkey = 0, coef = \<lambda>_. 0\<rparr> empty_pep
       = Inr (query (Sum 2 (Leaf 0) (Leaf 1)) \<lparr>pkey = 0, coef = \<lambda>_. 0\<rparr> empty_pep)
   \<and> pep_oracle (Sum 2 (Leaf 0) (Leaf 1)) \<lparr>pkey = 0, coef = \<lambda>_. 0\<rparr>
         (snd (query (Sum 2 (Leaf 0) (Leaf 1)) \<lparr>pkey = 0, coef = \<lambda>_. 0\<rparr> empty_pep))
       = Inr (query (Sum 2 (Leaf 0) (Leaf 1)) \<lparr>pkey = 0, coef = \<lambda>_. 0\<rparr> empty_pep)
   \<and> (\<exists>g v. recorded (fst (snd (wc_adrs_declarations (demo_engine 0) (1 / 10) 1
                  (PEP (demo_engine 0), [])))) 0
               = [(\<lparr>pkey = 0, coef = \<lambda>i. if i = 0 then 1 else 0\<rparr>, g, v)]
         \<and> pep_oracle (Leaf 0) \<lparr>pkey = 0, coef = \<lambda>i. if i = 0 then 1 else 0\<rparr>
              (fst (snd (wc_adrs_declarations (demo_engine 0) (1 / 10) 1
                  (PEP (demo_engine 0), []))))
            = Inr ((g, v), fst (snd (wc_adrs_declarations (demo_engine 0) (1 / 10) 1
                  (PEP (demo_engine 0), [])))))"
proof -
  let ?F = "Sum 2 (Leaf 0) (Leaf 1)"
  let ?p = "\<lparr>pkey = 0, coef = \<lambda>_. 0\<rparr>"
  let ?R = "wc_adrs_declarations (demo_engine 0) (1 / 10) 1 (PEP (demo_engine 0), [])"
  have f: "fid ?F \<notin> part_ids ?F" by simp
  have o: "pep_oracle ?F ?p empty_pep = Inr (fst (query ?F ?p empty_pep), snd (query ?F ?p empty_pep))"
    by (simp add: pep_oracle_def empty_pep_def)
  have d: "?R = (Inr (Leaf 0, Leaf 1, Sum 2 (Leaf 0) (Leaf 1),
        \<lparr>pkey = 0, coef = \<lambda>i. if i = 0 then 1 else 0\<rparr>,
        \<lparr>lin = \<lambda>i. (if i = 0 then 1 else 0) + (if i = 1 then 1 else 0),
          bil = \<lambda>_. 0, cst = 0\<rparr>), fst (snd ?R), snd (snd ?R))"
    using demo_adrs_declarations by (cases ?R) simp
  from oracle_idempotent [of ?F ?p empty_pep "fst (query ?F ?p empty_pep)"
      "snd (query ?F ?p empty_pep)" "\<lambda>_. True" "\<lambda>_ _ _. []" "\<lambda>_ _. Some 0" "1 / 10" 1
      "Leaf 0" "Leaf 1" "Sum 2 (Leaf 0) (Leaf 1)"
      "\<lparr>pkey = 0, coef = \<lambda>i. if i = 0 then 1 else 0\<rparr>"
      "\<lparr>lin = \<lambda>i. (if i = 0 then 1 else 0) + (if i = 1 then 1 else 0), bil = \<lambda>_. 0, cst = 0\<rparr>"
      "fst (snd ?R)" "snd (snd ?R)"]
    f o d
  show ?thesis by (simp add: demo_engine_def)
qed

section \<open>The engine of the specification: sums of Functions\<close>

lemma alike_refl: "list_all2 alike xs xs"
  by (simp add: list_all2_refl alike_def)

lemma find_alike:
  assumes "list_all2 alike xs ys"
  shows "rel_option alike (find (\<lambda>(x, g, v). pkey x = pkey p) xs)
     (find (\<lambda>(x, g, v). pkey x = pkey p) ys)"
  using assms
  by (induction xs ys rule: list_all2_induct) (auto simp: alike_def split: prod.splits)

lemma cached_agree:
  assumes "agree a s s'" and "k \<noteq> a"
  shows "rel_option (\<lambda>r r'. coef (fst r') = coef (fst r) \<and> snd r' = snd r)
     (cached s k p) (cached s' k p)"
proof -
  from assms have "list_all2 alike (recorded s k) (recorded s' k)" by (simp add: agree_def)
  from find_alike [OF this, of p] show ?thesis
    unfolding cached_def
    by (cases "find (\<lambda>(x, g, v). pkey x = pkey p) (recorded s k)";
        cases "find (\<lambda>(x, g, v). pkey x = pkey p) (recorded s' k)")
      (auto simp: alike_def content_def split: prod.splits)
qed

lemma agree_record:
  assumes "agree a s s'" and "coef g' = coef g"
  shows "agree a (record_triple k (p, g, v) s) (record_triple k (p, g', v) s')"
  using assms
  by (auto simp: agree_def record_triple_def alike_def content_def list_all2_appendI)

lemma agree_next_key:
  "agree a s s' \<Longrightarrow> agree a (s\<lparr>next_key := m\<rparr>) (s'\<lparr>next_key := m'\<rparr>)"
  by (simp add: agree_def)

lemma agree_record_left: "agree a s s' \<Longrightarrow> agree a (record_triple a t s) s'"
  by (simp add: agree_def record_triple_def)

lemma agree_record_right: "agree a s s' \<Longrightarrow> agree a s (record_triple a t s')"
  by (simp add: agree_def record_triple_def)

lemma agree_make_point_left: "agree a s s' \<Longrightarrow> make_point c s = (g, t) \<Longrightarrow> agree a t s'"
  by (auto simp: agree_def make_point_def)

lemma agree_make_point_right: "agree a s s' \<Longrightarrow> make_point c s' = (g, t') \<Longrightarrow> agree a s t'"
  by (auto simp: agree_def make_point_def)

lemma make_point_result:
  "make_point c s = (g, t) \<Longrightarrow> coef g = c \<and> pkey g = next_key s \<and> next_key t = Suc (next_key s)
     \<and> recorded t = recorded s"
  by (auto simp: make_point_def)


lemma new_generator_agree:
  assumes "agree a s s'" "new_generator s = (g, s1)" "new_generator s' = (g', s1')"
  shows "coef g' = coef g" "agree a s1 s1'"
    "next_key s1 = Suc (next_key s)" "next_key s1' = Suc (next_key s')"
  using assms by (auto simp: new_generator_def make_point_def agree_def)

lemma new_scalar_agree:
  assumes "agree a s s'" "new_scalar s = (v, s1)" "new_scalar s' = (v', s1')"
  shows "v' = v" "agree a s1 s1'" "next_key s1 = next_key s" "next_key s1' = next_key s'"
  using assms by (auto simp: new_scalar_def agree_def)

lemma add_points_agree:
  assumes "agree a s s'" "add_points g1 g2 s = (g, t)" "add_points g1' g2' s' = (g', t')"
    "coef g1' = coef g1" "coef g2' = coef g2"
  shows "coef g' = coef g" "agree a t t'"
    "next_key t = Suc (next_key s)" "next_key t' = Suc (next_key s')"
  using assms by (auto simp: add_points_def make_point_def agree_def)

lemma sub_points_agree:
  assumes "agree a s s'" "sub_points g1 g2 s = (g, t)" "sub_points g1' g2' s' = (g', t')"
    "coef g1' = coef g1" "coef g2' = coef g2"
  shows "coef g' = coef g" "agree a t t'"
    "next_key t = Suc (next_key s)" "next_key t' = Suc (next_key s')"
  using assms by (auto simp: sub_points_def make_point_def agree_def)

lemma scale_point_agree:
  assumes "agree a s s'" "scale_point c g1 s = (g, t)" "scale_point c g1' s' = (g', t')"
    "coef g1' = coef g1"
  shows "coef g' = coef g" "agree a t t'"
    "next_key t = Suc (next_key s)" "next_key t' = Suc (next_key s')"
  using assms by (auto simp: scale_point_def make_point_def agree_def)

lemma record_triple_next_key [simp]: "next_key (record_triple k t s) = next_key s"
  by (simp add: record_triple_def)

lemma cached_agree_cases:
  assumes "agree a s s'" and "k \<noteq> a"
  obtains (miss) "cached s k p = None" "cached s' k p = None"
  | (hit) r r' where "cached s k p = Some r" "cached s' k p = Some r'"
      "coef (fst r') = coef (fst r)" "snd r' = snd r"
  using cached_agree [OF assms, of p]
  by (cases "cached s k p"; cases "cached s' k p") auto

lemma query_agree:
  assumes "a \<notin> set (fids f)" "agree a s s'" "query f p s = (r, t)" "query f p s' = (r', t')"
  shows "coef (fst r') = coef (fst r) \<and> snd r' = snd r \<and> agree a t t'
     \<and> next_key t + next_key s' = next_key t' + next_key s"
  using assms
proof (induction f arbitrary: s s' r t r' t')
  case (Leaf k)
  from Leaf.prems(1) have ka: "k \<noteq> a" by simp
  from Leaf.prems(2) ka show ?case
  proof (cases rule: cached_agree_cases [where p = p])
    case hit
    with Leaf.prems show ?thesis by simp
  next
    case miss
    obtain g s1 where g: "new_generator s = (g, s1)" by (cases "new_generator s")
    obtain v s2 where v: "new_scalar s1 = (v, s2)" by (cases "new_scalar s1")
    obtain g' s1' where g': "new_generator s' = (g', s1')" by (cases "new_generator s'")
    obtain v' s2' where v': "new_scalar s1' = (v', s2')" by (cases "new_scalar s1'")
    note G = new_generator_agree [OF Leaf.prems(2) g g']
    note V = new_scalar_agree [OF G(2) v v']
    have r: "r = (g, v)" "t = record_triple k (p, g, v) s2"
      using Leaf.prems(3) miss(1) g v by auto
    have r': "r' = (g', v')" "t' = record_triple k (p, g', v') s2'"
      using Leaf.prems(4) miss(2) g' v' by auto
    have "agree a t t'" unfolding r r' V(1) by (rule agree_record [OF V(2) G(1)])
    then show ?thesis using r r' G V by simp
  qed
next
  case (Sum k f1 f2)
  from Sum.prems(1) have ka: "k \<noteq> a" and a1: "a \<notin> set (fids f1)" and a2: "a \<notin> set (fids f2)"
    by simp_all
  from Sum.prems(2) ka show ?case
  proof (cases rule: cached_agree_cases [where p = p])
    case hit
    with Sum.prems show ?thesis by simp
  next
    case miss
    obtain g1 v1 s1 where q1: "query f1 p s = ((g1, v1), s1)" by (metis surj_pair)
    obtain g2 v2 s2 where q2: "query f2 p s1 = ((g2, v2), s2)" by (metis surj_pair)
    obtain g s3 where ad: "add_points g1 g2 s2 = (g, s3)" by (cases "add_points g1 g2 s2")
    obtain g1' v1' s1' where q1': "query f1 p s' = ((g1', v1'), s1')" by (metis surj_pair)
    obtain g2' v2' s2' where q2': "query f2 p s1' = ((g2', v2'), s2')" by (metis surj_pair)
    obtain g' s3' where ad': "add_points g1' g2' s2' = (g', s3')" by (cases "add_points g1' g2' s2'")
    from Sum.IH(1) [OF a1 Sum.prems(2) q1 q1']
    have A: "coef g1' = coef g1" "v1' = v1" "agree a s1 s1'"
      "next_key s1 + next_key s' = next_key s1' + next_key s" by simp_all
    from Sum.IH(2) [OF a2 A(3) q2 q2']
    have B: "coef g2' = coef g2" "v2' = v2" "agree a s2 s2'"
      "next_key s2 + next_key s1' = next_key s2' + next_key s1" by simp_all
    note C = add_points_agree [OF B(3) ad ad' A(1) B(1)]
    have r: "r = (g, add_exprs v1 v2)" "t = record_triple k (p, g, add_exprs v1 v2) s3"
      using Sum.prems(3) miss(1) q1 q2 ad by auto
    have r': "r' = (g', add_exprs v1' v2')" "t' = record_triple k (p, g', add_exprs v1' v2') s3'"
      using Sum.prems(4) miss(2) q1' q2' ad' by auto
    have "agree a t t'" unfolding r r' A(2) B(2) by (rule agree_record [OF C(2) C(1)])
    then show ?thesis using r r' A B C by simp
  qed
next
  case (Diff k f1 f2)
  from Diff.prems(1) have ka: "k \<noteq> a" and a1: "a \<notin> set (fids f1)" and a2: "a \<notin> set (fids f2)"
    by simp_all
  from Diff.prems(2) ka show ?case
  proof (cases rule: cached_agree_cases [where p = p])
    case hit
    with Diff.prems show ?thesis by simp
  next
    case miss
    obtain g1 v1 s1 where q1: "query f1 p s = ((g1, v1), s1)" by (metis surj_pair)
    obtain g2 v2 s2 where q2: "query f2 p s1 = ((g2, v2), s2)" by (metis surj_pair)
    obtain g s3 where ad: "sub_points g1 g2 s2 = (g, s3)" by (cases "sub_points g1 g2 s2")
    obtain g1' v1' s1' where q1': "query f1 p s' = ((g1', v1'), s1')" by (metis surj_pair)
    obtain g2' v2' s2' where q2': "query f2 p s1' = ((g2', v2'), s2')" by (metis surj_pair)
    obtain g' s3' where ad': "sub_points g1' g2' s2' = (g', s3')" by (cases "sub_points g1' g2' s2'")
    from Diff.IH(1) [OF a1 Diff.prems(2) q1 q1']
    have A: "coef g1' = coef g1" "v1' = v1" "agree a s1 s1'"
      "next_key s1 + next_key s' = next_key s1' + next_key s" by simp_all
    from Diff.IH(2) [OF a2 A(3) q2 q2']
    have B: "coef g2' = coef g2" "v2' = v2" "agree a s2 s2'"
      "next_key s2 + next_key s1' = next_key s2' + next_key s1" by simp_all
    note C = sub_points_agree [OF B(3) ad ad' A(1) B(1)]
    have r: "r = (g, sub_exprs v1 v2)" "t = record_triple k (p, g, sub_exprs v1 v2) s3"
      using Diff.prems(3) miss(1) q1 q2 ad by auto
    have r': "r' = (g', sub_exprs v1' v2')" "t' = record_triple k (p, g', sub_exprs v1' v2') s3'"
      using Diff.prems(4) miss(2) q1' q2' ad' by auto
    have "agree a t t'" unfolding r r' A(2) B(2) by (rule agree_record [OF C(2) C(1)])
    then show ?thesis using r r' A B C by simp
  qed
next
  case (Scaled k c f1)
  from Scaled.prems(1) have ka: "k \<noteq> a" and a1: "a \<notin> set (fids f1)" by simp_all
  from Scaled.prems(2) ka show ?case
  proof (cases rule: cached_agree_cases [where p = p])
    case hit
    with Scaled.prems show ?thesis by simp
  next
    case miss
    obtain g1 v1 s1 where q1: "query f1 p s = ((g1, v1), s1)" by (metis surj_pair)
    obtain g s2 where sc: "scale_point c g1 s1 = (g, s2)" by (cases "scale_point c g1 s1")
    obtain g1' v1' s1' where q1': "query f1 p s' = ((g1', v1'), s1')" by (metis surj_pair)
    obtain g' s2' where sc': "scale_point c g1' s1' = (g', s2')" by (cases "scale_point c g1' s1'")
    from Scaled.IH [OF a1 Scaled.prems(2) q1 q1']
    have A: "coef g1' = coef g1" "v1' = v1" "agree a s1 s1'"
      "next_key s1 + next_key s' = next_key s1' + next_key s" by simp_all
    note C = scale_point_agree [OF A(3) sc sc' A(1)]
    have r: "r = (g, scale_expr c v1)" "t = record_triple k (p, g, scale_expr c v1) s2"
      using Scaled.prems(3) miss(1) q1 sc by auto
    have r': "r' = (g', scale_expr c v1')" "t' = record_triple k (p, g', scale_expr c v1') s2'"
      using Scaled.prems(4) miss(2) q1' sc' by auto
    have "agree a t t'" unfolding r r' A(2) by (rule agree_record [OF C(2) C(1)])
    then show ?thesis using r r' A C by simp
  qed
qed


lemma query_recorded:
  "query f p s = (r, t) \<Longrightarrow> k \<notin> set (fids f) \<Longrightarrow> recorded t k = recorded s k"
  using query_kept [of f p s r t] by (simp add: kept_def)

lemma add_points_result:
  assumes "add_points g h s = (r, t)"
  shows "r = \<lparr>pkey = next_key s, coef = \<lambda>i. coef g i + coef h i\<rparr>"
    "next_key t = Suc (next_key s)" "recorded t = recorded s"
  using assms by (auto simp: add_points_def make_point_def)

lemma agree_add_points_left: "agree a s s' \<Longrightarrow> add_points g h s = (r, t) \<Longrightarrow> agree a t s'"
  unfolding add_points_def by (rule agree_make_point_left)

lemma agree_add_points_right: "agree a s s' \<Longrightarrow> add_points g h s' = (r, t') \<Longrightarrow> agree a s t'"
  unfolding add_points_def by (rule agree_make_point_right)

lemma add_exprs_assoc: "add_exprs (add_exprs u v) w = add_exprs u (add_exprs v w)"
  by (simp add: add_exprs_def add.assoc)

lemma cached_None_iff:
  "cached s k q = None \<longleftrightarrow> (\<forall>t\<in>set (recorded s k). pkey (fst t) \<noteq> pkey q)"
  by (force simp: cached_def find_None_iff)

lemma cached_cong: "recorded s' k = recorded s k \<Longrightarrow> cached s' k p = cached s k p"
  by (simp add: cached_def)

lemma query_Sum_miss:
  assumes "cached s k p = None" "query f1 p s = ((g1, v1), s1)" "query f2 p s1 = ((g2, v2), s2)"
    "add_points g1 g2 s2 = (g, s3)"
  shows "query (Sum k f1 f2) p s
     = ((g, add_exprs v1 v2), record_triple k (p, g, add_exprs v1 v2) s3)"
  using assms by simp

lemma step_aligned:
  assumes ab: "a \<noteq> b"
    and a1: "a \<notin> set (fids f1)" and a2: "a \<notin> set (fids f2)" and a3: "a \<notin> set (fids f3)"
    and b1: "b \<notin> set (fids f1)" and b2: "b \<notin> set (fids f2)" and b3: "b \<notin> set (fids f3)"
    and al: "aligned a b s s'"
    and l: "query (Sum b (Sum a f1 f2) f3) p s = (r, t)"
    and rr: "query (Sum b f1 (Sum a f2 f3)) p s' = (r', t')"
  shows "r' = r \<and> aligned a b t t'"
proof -
  from al have ag: "agree a s s'" and nk: "next_key s' = next_key s"
    and rb: "recorded s' b = recorded s b"
    and ca: "\<And>q. cached s b q = None \<Longrightarrow> cached s a q = None \<and> cached s' a q = None"
    by (simp_all add: aligned_def)
  have cb: "cached s' b p = cached s b p" by (rule cached_cong [OF rb])
  show ?thesis
  proof (cases "cached s b p")
    case (Some x)
    with l rr cb al show ?thesis by simp
  next
    case None
    from ca [OF None] have na: "cached s a p = None" and na': "cached s' a p = None" by simp_all
    \<comment> \<open>the run on \<open>(f1 + f2) + f3\<close>\<close>
    obtain g1 v1 s1 where q1: "query f1 p s = ((g1, v1), s1)" by (metis surj_pair)
    obtain g2 v2 s2 where q2: "query f2 p s1 = ((g2, v2), s2)" by (metis surj_pair)
    obtain g12 s3 where ad12: "add_points g1 g2 s2 = (g12, s3)" by (cases "add_points g1 g2 s2")
    define s4 where "s4 = record_triple a (p, g12, add_exprs v1 v2) s3"
    obtain g3 v3 s5 where q3: "query f3 p s4 = ((g3, v3), s5)" by (metis surj_pair)
    obtain g s6 where ad: "add_points g12 g3 s5 = (g, s6)" by (cases "add_points g12 g3 s5")
    have inner: "query (Sum a f1 f2) p s = ((g12, add_exprs v1 v2), s4)"
      unfolding s4_def by (rule query_Sum_miss [OF na q1 q2 ad12])
    have L: "query (Sum b (Sum a f1 f2) f3) p s
       = ((g, add_exprs (add_exprs v1 v2) v3),
          record_triple b (p, g, add_exprs (add_exprs v1 v2) v3) s6)"
      by (rule query_Sum_miss [OF None inner q3 ad])
    \<comment> \<open>the run on \<open>f1 + (f2 + f3)\<close>\<close>
    obtain g1' v1' s1' where q1': "query f1 p s' = ((g1', v1'), s1')" by (metis surj_pair)
    obtain g2' v2' s2' where q2': "query f2 p s1' = ((g2', v2'), s2')" by (metis surj_pair)
    obtain g3' v3' s3' where q3': "query f3 p s2' = ((g3', v3'), s3')" by (metis surj_pair)
    obtain g23 s4' where ad23: "add_points g2' g3' s3' = (g23, s4')"
      by (cases "add_points g2' g3' s3'")
    define s5' where "s5' = record_triple a (p, g23, add_exprs v2' v3') s4'"
    obtain g' s6' where ad': "add_points g1' g23 s5' = (g', s6')"
      by (cases "add_points g1' g23 s5'")
    have na1': "cached s1' a p = None"
      using na' cached_cong [OF query_recorded [OF q1' a1], of p] by simp
    have inner': "query (Sum a f2 f3) p s1' = ((g23, add_exprs v2' v3'), s5')"
      unfolding s5'_def by (rule query_Sum_miss [OF na1' q2' q3' ad23])
    have R: "query (Sum b f1 (Sum a f2 f3)) p s'
       = ((g', add_exprs v1' (add_exprs v2' v3')),
          record_triple b (p, g', add_exprs v1' (add_exprs v2' v3')) s6')"
      by (rule query_Sum_miss [OF _ q1' inner' ad']) (simp add: cb None)
    \<comment> \<open>the operands answer alike\<close>
    from query_agree [OF a1 ag q1 q1']
    have A: "coef g1' = coef g1" "v1' = v1" "agree a s1 s1'"
      "next_key s1 + next_key s' = next_key s1' + next_key s" by simp_all
    from query_agree [OF a2 A(3) q2 q2']
    have B: "coef g2' = coef g2" "v2' = v2" "agree a s2 s2'"
      "next_key s2 + next_key s1' = next_key s2' + next_key s1" by simp_all
    have "agree a s4 s2'"
      unfolding s4_def by (rule agree_record_left [OF agree_add_points_left [OF B(3) ad12]])
    from query_agree [OF a3 this q3 q3']
    have C: "coef g3' = coef g3" "v3' = v3" "agree a s5 s3'"
      "next_key s5 + next_key s2' = next_key s3' + next_key s4" by simp_all
    note P12 = add_points_result [OF ad12]
    note P = add_points_result [OF ad]
    note P23 = add_points_result [OF ad23]
    note P' = add_points_result [OF ad']
    have k4: "next_key s4 = Suc (next_key s2)" by (simp add: s4_def P12)
    have k5': "next_key s5' = Suc (next_key s3')" by (simp add: s5'_def P23)
    have keys: "next_key s5 = next_key s5'"
      using A(4) B(4) C(4) nk k4 k5' by simp
    have geq: "g' = g"
      unfolding P(1) P'(1) P12(1) P23(1) using keys A(1) B(1) C(1)
      by (simp add: add.assoc)
    have veq: "add_exprs v1' (add_exprs v2' v3') = add_exprs (add_exprs v1 v2) v3"
      by (simp add: A(2) B(2) C(2) add_exprs_assoc)
    \<comment> \<open>the records of \<open>a\<close> and \<open>b\<close>\<close>
    have ra: "recorded s6 a = recorded s a @ [(p, g12, add_exprs v1 v2)]"
      using query_recorded [OF q1 a1] query_recorded [OF q2 a2] query_recorded [OF q3 a3]
      by (simp add: P P12 s4_def record_triple_def)
    have ra': "recorded s6' a = recorded s' a @ [(p, g23, add_exprs v2' v3')]"
      using query_recorded [OF q1' a1] query_recorded [OF q2' a2] query_recorded [OF q3' a3]
      by (simp add: P' P23 s5'_def record_triple_def)
    have rb6: "recorded s6 b = recorded s b"
      using query_recorded [OF q1 b1] query_recorded [OF q2 b2] query_recorded [OF q3 b3] ab
      by (simp add: P P12 s4_def record_triple_def)
    have rb6': "recorded s6' b = recorded s b"
      using query_recorded [OF q1' b1] query_recorded [OF q2' b2] query_recorded [OF q3' b3] ab rb
      by (simp add: P' P23 s5'_def record_triple_def)
    have ag6: "agree a s6 s6'"
      by (rule agree_add_points_right [OF _ ad'], unfold s5'_def, rule agree_record_right,
          rule agree_add_points_right [OF _ ad23], rule agree_add_points_left [OF C(3) ad])
    let ?V = "add_exprs (add_exprs v1 v2) v3"
    have t: "t = record_triple b (p, g, ?V) s6" and r: "r = (g, ?V)" using l L by simp_all
    have t': "t' = record_triple b (p, g, ?V) s6'" and r': "r' = (g, ?V)"
      using rr R geq veq by simp_all
    have "agree a t t'" unfolding t t' by (rule agree_record [OF ag6 refl])
    moreover have "next_key t' = next_key t" by (simp add: t t' P P' keys)
    moreover have "recorded t' b = recorded t b"
      by (simp add: t t' record_triple_def rb6 rb6')
    moreover have "cached t a q = None \<and> cached t' a q = None" if "cached t b q = None" for q
    proof -
      from that have "cached s b q = None" and pq: "pkey p \<noteq> pkey q"
        by (auto simp: cached_None_iff t record_triple_def rb6)
      from ca [OF this(1)] pq show ?thesis
        using ab by (auto simp: cached_None_iff t t' record_triple_def ra ra')
    qed
    ultimately show ?thesis by (simp add: aligned_def r r')
  qed
qed


lemma emitted_alike:
  assumes "list_all2 alike xs ys"
  shows "map (\<lambda>(t, t'). policy (content t) (content t')) (pairs xs)
     = map (\<lambda>(t, t'). policy (content t) (content t')) (pairs ys)"
proof -
  from assms have len: "length ys = length xs" by (simp add: list_all2_lengthD)
  from assms have c: "content (ys ! i) = content (xs ! i)" if "i < length xs" for i
    using that by (auto simp: list_all2_conv_all_nth alike_def)
  show ?thesis
    unfolding pairs_def map_concat map_map len
    by (intro arg_cong [where f = concat] map_cong refl) (simp add: c)
qed

lemma interpolation_agree:
  assumes "agree a t t'" and "a \<notin> fst ` set (declared t)"
  shows "interpolation policy t' = interpolation policy t"
proof -
  have d: "declared t' = declared t" using assms(1) by (simp add: agree_def)
  have "concat (map (\<lambda>(u, u'). policy cls (content u) (content u')) (pairs (recorded t' k)))
      = concat (map (\<lambda>(u, u'). policy cls (content u) (content u')) (pairs (recorded t k)))"
    if "(k, cls, x) \<in> set (declared t)" for k cls x
  proof -
    from that assms(2) have "k \<noteq> a" by force
    with assms(1) have "list_all2 alike (recorded t k) (recorded t' k)" by (simp add: agree_def)
    from emitted_alike [OF this, of "policy cls"] show ?thesis by simp
  qed
  then show ?thesis
    unfolding interpolation_def d
    by (intro arg_cong [where f = concat] map_cong refl) auto
qed

lemma oracle_aligned:
  assumes ab: "a \<noteq> b"
    and a1: "a \<notin> set (fids f1)" and a2: "a \<notin> set (fids f2)" and a3: "a \<notin> set (fids f3)"
    and b1: "b \<notin> set (fids f1)" and b2: "b \<notin> set (fids f2)" and b3: "b \<notin> set (fids f3)"
    and al: "aligned a b s s'"
  shows "(\<exists>e. pep_oracle (Sum b (Sum a f1 f2) f3) p s = Inl e
            \<and> pep_oracle (Sum b f1 (Sum a f2 f3)) p s' = Inl e)
       \<or> (\<exists>r t t'. pep_oracle (Sum b (Sum a f1 f2) f3) p s = Inr (r, t)
            \<and> pep_oracle (Sum b f1 (Sum a f2 f3)) p s' = Inr (r, t') \<and> aligned a b t t')"
proof (cases "frozen s")
  case True
  moreover from al have "frozen s' = frozen s" by (simp add: aligned_def agree_def)
  ultimately show ?thesis by (simp add: pep_oracle_def)
next
  case False
  moreover from al have "frozen s' = frozen s" by (simp add: aligned_def agree_def)
  moreover obtain r t where l: "query (Sum b (Sum a f1 f2) f3) p s = (r, t)"
    by (cases "query (Sum b (Sum a f1 f2) f3) p s")
  moreover obtain r' t' where rr: "query (Sum b f1 (Sum a f2 f3)) p s' = (r', t')"
    by (cases "query (Sum b f1 (Sum a f2 f3)) p s'")
  moreover note step_aligned [OF ab a1 a2 a3 b1 b2 b3 al l rr]
  ultimately show ?thesis by (simp add: pep_oracle_def)
qed

lemma trajectory_aligned:
  assumes ab: "a \<noteq> b"
    and a1: "a \<notin> set (fids f1)" and a2: "a \<notin> set (fids f2)" and a3: "a \<notin> set (fids f3)"
    and b1: "b \<notin> set (fids f1)" and b2: "b \<notin> set (fids f2)" and b3: "b \<notin> set (fids f3)"
    and al: "aligned a b s s"
  shows "(\<exists>e. trajectory (Sum b (Sum a f1 f2) f3) pick n s = Inl e
            \<and> trajectory (Sum b f1 (Sum a f2 f3)) pick n s = Inl e)
       \<or> (\<exists>h t t'. trajectory (Sum b (Sum a f1 f2) f3) pick n s = Inr (h, t)
            \<and> trajectory (Sum b f1 (Sum a f2 f3)) pick n s = Inr (h, t') \<and> aligned a b t t')"
proof (induction n)
  case 0
  then show ?case using al by simp
next
  case (Suc n)
  from Suc.IH show ?case
  proof (elim disjE exE conjE)
    fix e
    assume "trajectory (Sum b (Sum a f1 f2) f3) pick n s = Inl e"
      "trajectory (Sum b f1 (Sum a f2 f3)) pick n s = Inl e"
    then show ?thesis by simp
  next
    fix h t t'
    assume tr: "trajectory (Sum b (Sum a f1 f2) f3) pick n s = Inr (h, t)"
      "trajectory (Sum b f1 (Sum a f2 f3)) pick n s = Inr (h, t')"
      and al': "aligned a b t t'"
    from oracle_aligned [OF ab a1 a2 a3 b1 b2 b3 al', of "pick h"] show ?thesis
      using tr by auto
  qed
qed

lemma oracle_declared: "pep_oracle F p s = Inr (r, t) \<Longrightarrow> declared t = declared s"
  using query_kept [of F p s r t] by (simp add: pep_oracle_def kept_def split: if_splits)

lemma trajectory_declared: "trajectory F pick n s = Inr (h, t) \<Longrightarrow> declared t = declared s"
proof (induction n arbitrary: h t)
  case 0
  then show ?case by simp
next
  case (Suc n)
  from Suc.prems obtain h1 s1 r where
    "trajectory F pick n s = Inr (h1, s1)" "pep_oracle F (pick h1) s1 = Inr (r, t)"
    by (auto split: sum.splits)
  with Suc.IH [of h1 s1] oracle_declared [of F "pick h1" s1 r t] show ?case by simp
qed

lemma sums_observed_alike:
  assumes ab: "a \<noteq> b"
    and a1: "a \<notin> set (fids f1)" and a2: "a \<notin> set (fids f2)" and a3: "a \<notin> set (fids f3)"
    and b1: "b \<notin> set (fids f1)" and b2: "b \<notin> set (fids f2)" and b3: "b \<notin> set (fids f3)"
    and ra: "recorded s a = []" and da: "a \<notin> fst ` set (declared s)"
  shows "observation policy (trajectory (Sum b (Sum a f1 f2) f3) pick n s)
     = observation policy (trajectory (Sum b f1 (Sum a f2 f3)) pick n s)"
proof -
  have al: "aligned a b s s"
    by (simp add: aligned_def agree_def alike_refl cached_def ra)
  from trajectory_aligned [OF ab a1 a2 a3 b1 b2 b3 al, of pick n] show ?thesis
  proof (elim disjE exE conjE)
    fix e
    assume "trajectory (Sum b (Sum a f1 f2) f3) pick n s = Inl e"
      "trajectory (Sum b f1 (Sum a f2 f3)) pick n s = Inl e"
    then show ?thesis by (simp add: observation_def)
  next
    fix h t t'
    assume tr: "trajectory (Sum b (Sum a f1 f2) f3) pick n s = Inr (h, t)"
      "trajectory (Sum b f1 (Sum a f2 f3)) pick n s = Inr (h, t')"
      and al': "aligned a b t t'"
    from trajectory_declared [OF tr(1)] da have "a \<notin> fst ` set (declared t)" by simp
    from interpolation_agree [OF _ this, of t' policy] al'
    have "interpolation policy t' = interpolation policy t" by (simp add: aligned_def)
    with tr show ?thesis by (simp add: observation_def)
  qed
qed

lemma no_repeats_record:
  assumes "no_repeats s" and "cached s k p = None"
  shows "no_repeats (record_triple k (p, g, v) s)"
  using assms by (auto simp: no_repeats_def record_triple_def cached_None_iff)

lemma no_repeats_cong: "recorded t = recorded s \<Longrightarrow> no_repeats s \<Longrightarrow> no_repeats t"
  by (simp add: no_repeats_def)

lemma query_no_repeats:
  assumes "proper f" "no_repeats s" "query f p s = (r, t)"
  shows "no_repeats t"
  using assms
proof (induction f arbitrary: s r t)
  case (Leaf k)
  from Leaf.prems(3) show ?case
  proof (cases rule: query_Leaf_cases)
    case hit
    with Leaf.prems(2) show ?thesis by simp
  next
    case (miss g s1 v s2)
    have k: "kept {} s s2"
      by (rule kept_step [OF kept_new_generator [OF miss(2)] kept_new_scalar [OF miss(3)]])
    then have "recorded s2 = recorded s" by (auto simp: kept_def)
    from no_repeats_cong [OF this Leaf.prems(2)] have "no_repeats s2" .
    moreover from cached_kept [OF k, of k p] miss(1) have "cached s2 k p = None" by simp
    ultimately show ?thesis unfolding miss(5) by (rule no_repeats_record)
  qed
next
  case (Sum k f1 f2)
  from Sum.prems(1) have k: "k \<notin> set (fids f1)" "k \<notin> set (fids f2)"
    and p: "proper f1" "proper f2" by simp_all
  from Sum.prems(3) show ?case
  proof (cases rule: query_Sum_cases)
    case hit
    with Sum.prems(2) show ?thesis by simp
  next
    case (miss g1 v1 s1 g2 v2 s2 g s3)
    have "no_repeats s2"
      by (rule Sum.IH(2) [OF p(2) Sum.IH(1) [OF p(1) Sum.prems(2) miss(2)] miss(3)])
    from no_repeats_cong [OF add_points_result(3) [OF miss(4)] this] have "no_repeats s3" .
    moreover have "cached s3 k p = None"
      using cached_kept [OF query_kept [OF miss(2)] k(1), of p]
        cached_kept [OF query_kept [OF miss(3)] k(2), of p]
        cached_kept [OF kept_add_points [OF miss(4)], of k p] miss(1)
      by simp
    ultimately show ?thesis unfolding miss(6) by (rule no_repeats_record)
  qed
next
  case (Diff k f1 f2)
  from Diff.prems(1) have k: "k \<notin> set (fids f1)" "k \<notin> set (fids f2)"
    and p: "proper f1" "proper f2" by simp_all
  from Diff.prems(3) show ?case
  proof (cases rule: query_Diff_cases)
    case hit
    with Diff.prems(2) show ?thesis by simp
  next
    case (miss g1 v1 s1 g2 v2 s2 g s3)
    have "no_repeats s2"
      by (rule Diff.IH(2) [OF p(2) Diff.IH(1) [OF p(1) Diff.prems(2) miss(2)] miss(3)])
    moreover have "recorded s3 = recorded s2"
      using kept_sub_points [OF miss(4)] by (auto simp: kept_def)
    ultimately have "no_repeats s3" by (simp add: no_repeats_def)
    moreover have "cached s3 k p = None"
      using cached_kept [OF query_kept [OF miss(2)] k(1), of p]
        cached_kept [OF query_kept [OF miss(3)] k(2), of p]
        cached_kept [OF kept_sub_points [OF miss(4)], of k p] miss(1)
      by simp
    ultimately show ?thesis unfolding miss(6) by (rule no_repeats_record)
  qed
next
  case (Scaled k c f1)
  from Scaled.prems(1) have k: "k \<notin> set (fids f1)" and p: "proper f1" by simp_all
  from Scaled.prems(3) show ?case
  proof (cases rule: query_Scaled_cases)
    case hit
    with Scaled.prems(2) show ?thesis by simp
  next
    case (miss g1 v1 s1 g s2)
    have "no_repeats s1" by (rule Scaled.IH [OF p Scaled.prems(2) miss(2)])
    moreover have "recorded s2 = recorded s1"
      using kept_scale_point [OF miss(3)] by (auto simp: kept_def)
    ultimately have "no_repeats s2" by (simp add: no_repeats_def)
    moreover have "cached s2 k p = None"
      using cached_kept [OF query_kept [OF miss(2)] k, of p]
        cached_kept [OF kept_scale_point [OF miss(3)], of k p] miss(1)
      by simp
    ultimately show ?thesis unfolding miss(5) by (rule no_repeats_record)
  qed
qed

lemma trajectory_no_repeats:
  assumes "proper F" "no_repeats s"
  shows "trajectory F pick n s = Inr (h, t) \<Longrightarrow> no_repeats t"
proof (induction n arbitrary: h t)
  case 0
  with assms(2) show ?case by simp
next
  case (Suc n)
  from Suc.prems obtain h1 s1 r where
    tr: "trajectory F pick n s = Inr (h1, s1)" and o: "pep_oracle F (pick h1) s1 = Inr (r, t)"
    by (auto split: sum.splits)
  from o have "query F (pick h1) s1 = (r, t)" by (simp add: pep_oracle_def split: if_splits)
  from query_no_repeats [OF assms(1) Suc.IH [OF tr] this] show ?case .
qed


text \<open>
  Claim C7: built by the engine from the same state, \<open>(f1 + f2) + f3\<close> and
  \<open>f1 + (f2 + f3)\<close> leave the same state, and the same trajectory of oracle calls on
  either of them gets the same answers and ends in states that emit the same
  interpolation constraints (or both are rejected with the same error). No oracle
  call is duplicated: no Function ever records a point twice.
\<close>

theorem sum_of_functions_associative:
  assumes "pep_fadd f1 f2 s0 = Inr (f12, s1)" and "pep_fadd f12 f3 s1 = Inr (Fl, s)"
    and "pep_fadd f2 f3 s0 = Inr (f23, s1')" and "pep_fadd f1 f23 s1' = Inr (Fr, s')"
    and "\<forall>k \<in> set (fids f1) \<union> set (fids f2) \<union> set (fids f3). k < next_fun s0"
    and "\<forall>k \<in> fst ` set (declared s0). k < next_fun s0"
    and "recorded s0 (next_fun s0) = []"
  shows "s' = s
     \<and> observation policy (trajectory Fl pick n s) = observation policy (trajectory Fr pick n s)
     \<and> (proper f1 \<and> proper f2 \<and> proper f3 \<and> no_repeats s0 \<longrightarrow>
          (\<forall>h t. trajectory Fl pick n s = Inr (h, t) \<longrightarrow> no_repeats t)
          \<and> (\<forall>h t. trajectory Fr pick n s = Inr (h, t) \<longrightarrow> no_repeats t))"
proof -
  let ?a = "next_fun s0" and ?b = "Suc (next_fun s0)"
  from assms(1-4) have
    Fl: "Fl = Sum ?b (Sum ?a f1 f2) f3" and Fr: "Fr = Sum ?b f1 (Sum ?a f2 f3)"
    and s: "s = s0\<lparr>next_fun := Suc ?b\<rparr>" and s': "s' = s"
    by (auto simp: pep_fadd_def)
  have ids: "?a \<notin> set (fids f1)" "?a \<notin> set (fids f2)" "?a \<notin> set (fids f3)"
    "?b \<notin> set (fids f1)" "?b \<notin> set (fids f2)" "?b \<notin> set (fids f3)"
  proof -
    have lt: "k < next_fun s0" if "k \<in> set (fids f1) \<union> set (fids f2) \<union> set (fids f3)" for k
      using assms(5) that by blast
    show "?a \<notin> set (fids f1)" "?a \<notin> set (fids f2)" "?a \<notin> set (fids f3)"
      using lt [of ?a] by auto
    show "?b \<notin> set (fids f1)" "?b \<notin> set (fids f2)" "?b \<notin> set (fids f3)"
      using lt [of ?b] by auto
  qed
  have ra: "recorded s ?a = []" using assms(7) by (simp add: s)
  have da: "?a \<notin> fst ` set (declared s)" using assms(6) by (fastforce simp: s)
  have obs: "observation policy (trajectory Fl pick n s)
      = observation policy (trajectory Fr pick n s)"
    unfolding Fl Fr by (rule sums_observed_alike [OF _ ids ra da]) simp
  have rep: "(\<forall>h t. trajectory Fl pick n s = Inr (h, t) \<longrightarrow> no_repeats t)
      \<and> (\<forall>h t. trajectory Fr pick n s = Inr (h, t) \<longrightarrow> no_repeats t)"
    if p: "proper f1 \<and> proper f2 \<and> proper f3 \<and> no_repeats s0"
  proof -
    from p ids have "proper Fl" "proper Fr" by (simp_all add: Fl Fr)
    moreover from p have "no_repeats s" by (simp add: s no_repeats_def)
    ultimately show ?thesis by (blast intro: trajectory_no_repeats)
  qed
  from s' obs rep show ?thesis by blast
qed

theorem sum_of_functions_associative_witness:
  "pep_fadd (Leaf 0) (Leaf 1) three_functions
     = Inr (Sum 3 (Leaf 0) (Leaf 1), three_functions\<lparr>next_fun := 4\<rparr>)
   \<and> pep_fadd (Sum 3 (Leaf 0) (Leaf 1)) (Leaf 2) (three_functions\<lparr>next_fun := 4\<rparr>)
     = Inr (Sum 4 (Sum 3 (Leaf 0) (Leaf 1)) (Leaf 2), three_functions\<lparr>next_fun := 5\<rparr>)
   \<and> pep_fadd (Leaf 1) (Leaf 2) three_functions
     = Inr (Sum 3 (Leaf 1) (Leaf 2), three_functions\<lparr>next_fun := 4\<rparr>)
   \<and> pep_fadd (Leaf 0) (Sum 3 (Leaf 1) (Leaf 2)) (three_functions\<lparr>next_fun := 4\<rparr>)
     = Inr (Sum 4 (Leaf 0) (Sum 3 (Leaf 1) (Leaf 2)), three_functions\<lparr>next_fun := 5\<rparr>)
   \<and> fids (Leaf 0) @ fids (Leaf 1) @ fids (Leaf 2) = [0, 1, 2]
   \<and> map fst (declared three_functions) = [0, 1, 2]
   \<and> next_fun three_functions = 3
   \<and> recorded three_functions (next_fun three_functions) = []
   \<and> proper (Leaf 0) \<and> proper (Leaf 1) \<and> proper (Leaf 2) \<and> no_repeats three_functions
   \<and> observation (\<lambda>_ _ _. [(constant_expr 1, LeZero)])
        (trajectory (Sum 4 (Sum 3 (Leaf 0) (Leaf 1)) (Leaf 2))
           (\<lambda>h. \<lparr>pkey = 100 + length h, coef = \<lambda>_. 0\<rparr>) 2 (three_functions\<lparr>next_fun := 5\<rparr>))
     = observation (\<lambda>_ _ _. [(constant_expr 1, LeZero)])
        (trajectory (Sum 4 (Leaf 0) (Sum 3 (Leaf 1) (Leaf 2)))
           (\<lambda>h. \<lparr>pkey = 100 + length h, coef = \<lambda>_. 0\<rparr>) 2 (three_functions\<lparr>next_fun := 5\<rparr>))"
proof -
  have b: "pep_fadd (Leaf 0) (Leaf 1) three_functions
       = Inr (Sum 3 (Leaf 0) (Leaf 1), three_functions\<lparr>next_fun := 4\<rparr>)"
    "pep_fadd (Sum 3 (Leaf 0) (Leaf 1)) (Leaf 2) (three_functions\<lparr>next_fun := 4\<rparr>)
       = Inr (Sum 4 (Sum 3 (Leaf 0) (Leaf 1)) (Leaf 2), three_functions\<lparr>next_fun := 5\<rparr>)"
    "pep_fadd (Leaf 1) (Leaf 2) three_functions
       = Inr (Sum 3 (Leaf 1) (Leaf 2), three_functions\<lparr>next_fun := 4\<rparr>)"
    "pep_fadd (Leaf 0) (Sum 3 (Leaf 1) (Leaf 2)) (three_functions\<lparr>next_fun := 4\<rparr>)
       = Inr (Sum 4 (Leaf 0) (Sum 3 (Leaf 1) (Leaf 2)), three_functions\<lparr>next_fun := 5\<rparr>)"
    by (simp_all add: pep_fadd_def three_functions_def empty_pep_def)
  have w: "\<forall>k \<in> set (fids (Leaf 0)) \<union> set (fids (Leaf 1)) \<union> set (fids (Leaf 2)).
         k < next_fun three_functions"
    "\<forall>k \<in> fst ` set (declared three_functions). k < next_fun three_functions"
    "recorded three_functions (next_fun three_functions) = []"
    by (simp_all add: three_functions_def empty_pep_def)
  have p: "proper (Leaf 0) \<and> proper (Leaf 1) \<and> proper (Leaf 2) \<and> no_repeats three_functions"
    by (simp add: no_repeats_def three_functions_def empty_pep_def)
  have c: "fids (Leaf 0) @ fids (Leaf 1) @ fids (Leaf 2) = [0, 1, 2]"
    "map fst (declared three_functions) = [0, 1, 2]" "next_fun three_functions = 3"
    by (simp_all add: three_functions_def empty_pep_def)
  from sum_of_functions_associative [OF b w,
      of "\<lambda>_ _ _. [(constant_expr 1, LeZero)]" "\<lambda>h. \<lparr>pkey = 100 + length h, coef = \<lambda>_. 0\<rparr>" 2]
    b w p c
  show ?thesis by blast
qed

end
